theory Spec2Isabelle
  imports Main
begin

chapter \<open>The model\<close>

section \<open>Graph handles\<close>

text \<open>
  Nodes, edges and clusters are identified by their index. An adjacency entry is one
  half of an edge: the edge together with the side it stands on (\<open>isSource\<close>).
  A pointer that may be \<open>nullptr\<close> is an \<open>option\<close>.
\<close>

type_synonym node = nat
type_synonym edge = nat
type_synonym cluster = nat

datatype adjEntry = Adj (theEdge: edge) (isSource: bool)

datatype error = AssertionFailed | NullPointer

fun twin :: "adjEntry \<Rightarrow> adjEntry" where
  "twin (Adj e s) = Adj e (\<not> s)"

record Graph =
  nodes :: "node list"
  edges :: "edge list"
  source :: "edge \<Rightarrow> node"
  target :: "edge \<Rightarrow> node"
  adjEntries :: "node \<Rightarrow> adjEntry list"
  nodeIdCount :: nat
  edgeIdCount :: nat

definition theNode :: "Graph \<Rightarrow> adjEntry \<Rightarrow> node" where
  "theNode G adj = (if isSource adj then source G (theEdge adj) else target G (theEdge adj))"

definition twinNode :: "Graph \<Rightarrow> adjEntry \<Rightarrow> node" where
  "twinNode G adj = theNode G (twin adj)"

definition degree :: "Graph \<Rightarrow> node \<Rightarrow> nat" where
  "degree G n = length (adjEntries G n)"

section \<open>FilteringBFS\<close>

record FilteringBFS =
  m_pending :: "node list"
  m_visited :: "node \<Rightarrow> bool"
  m_visit :: "adjEntry \<Rightarrow> bool"
  m_descend :: "node \<Rightarrow> bool"

text \<open>The constructors: every node of the container is appended, nothing is visited.\<close>

definition FilteringBFS_init ::
  "node list \<Rightarrow> (adjEntry \<Rightarrow> bool) \<Rightarrow> (node \<Rightarrow> bool) \<Rightarrow> FilteringBFS" where
  "FilteringBFS_init ns visit descend_from =
     \<lparr>m_pending = ns, m_visited = (\<lambda>_. False), m_visit = visit, m_descend = descend_from\<rparr>"

definition valid :: "FilteringBFS \<Rightarrow> bool" where
  "valid bfs = (m_pending bfs \<noteq> [])"

definition current :: "FilteringBFS \<Rightarrow> error + node" where
  "current bfs = (case m_pending bfs of [] \<Rightarrow> Inl AssertionFailed | n # _ \<Rightarrow> Inr n)"

text \<open>The loop over \<open>n->adjEntries\<close> in \<open>next()\<close>.\<close>

fun enqueue_twins :: "Graph \<Rightarrow> FilteringBFS \<Rightarrow> adjEntry list \<Rightarrow> FilteringBFS" where
  "enqueue_twins G bfs [] = bfs"
| "enqueue_twins G bfs (adj # adjs) =
     (let tw = twinNode G adj in
      enqueue_twins G
        (if \<not> m_visited bfs tw \<and> m_visit bfs adj
         then bfs\<lparr>m_pending := m_pending bfs @ [tw]\<rparr> else bfs) adjs)"

text \<open>The final loop of \<open>next()\<close>: pop while the front is visited.\<close>

fun drain :: "(node \<Rightarrow> bool) \<Rightarrow> node list \<Rightarrow> node list" where
  "drain vis [] = []"
| "drain vis (n # ns) = (if vis n then drain vis ns else n # ns)"

definition next_bfs :: "Graph \<Rightarrow> FilteringBFS \<Rightarrow> error + FilteringBFS" where
  "next_bfs G bfs =
     (case m_pending bfs of
        [] \<Rightarrow> Inl AssertionFailed
      | n # rest \<Rightarrow>
          if m_visited bfs n then Inl AssertionFailed
          else
            let bfs1 = bfs\<lparr>m_pending := rest, m_visited := (m_visited bfs)(n := True)\<rparr>;
                bfs2 = (if m_descend bfs1 n then enqueue_twins G bfs1 (adjEntries G n) else bfs1)
            in Inr (bfs2\<lparr>m_pending := drain (m_visited bfs2) (m_pending bfs2)\<rparr>))"

definition append_bfs :: "FilteringBFS \<Rightarrow> node \<Rightarrow> FilteringBFS" where
  "append_bfs bfs n = bfs\<lparr>m_visited := (m_visited bfs)(n := False), m_pending := m_pending bfs @ [n]\<rparr>"

definition setVisitFilter :: "FilteringBFS \<Rightarrow> (adjEntry \<Rightarrow> bool) \<Rightarrow> FilteringBFS" where
  "setVisitFilter bfs mVisit = bfs\<lparr>m_visit := mVisit\<rparr>"

definition setDescendFilter :: "FilteringBFS \<Rightarrow> (node \<Rightarrow> bool) \<Rightarrow> FilteringBFS" where
  "setDescendFilter bfs mDescend = bfs\<lparr>m_descend := mDescend\<rparr>"

text \<open>
  A use of the object without \<open>append()\<close>: the range-based loop
  \<open>for (node n : bfs)\<close> reads \<open>current()\<close> and calls \<open>next()\<close> while \<open>valid()\<close>,
  and the filters may be replaced between two steps. \<open>traverse\<close> runs at most the
  given number of loop iterations and returns the nodes \<open>current()\<close> returned, in order.
\<close>

datatype bfs_op = Next | SetVisitFilter "adjEntry \<Rightarrow> bool" | SetDescendFilter "node \<Rightarrow> bool"

fun run_ops :: "Graph \<Rightarrow> FilteringBFS \<Rightarrow> bfs_op list \<Rightarrow> error + (node list \<times> FilteringBFS)" where
  "run_ops G bfs [] = Inr ([], bfs)"
| "run_ops G bfs (SetVisitFilter f # ops) = run_ops G (setVisitFilter bfs f) ops"
| "run_ops G bfs (SetDescendFilter f # ops) = run_ops G (setDescendFilter bfs f) ops"
| "run_ops G bfs (Next # ops) =
     (if \<not> valid bfs then Inr ([], bfs)
      else case current bfs of
        Inl e \<Rightarrow> Inl e
      | Inr n \<Rightarrow>
          (case next_bfs G bfs of
             Inl e \<Rightarrow> Inl e
           | Inr bfs' \<Rightarrow>
               (case run_ops G bfs' ops of
                  Inl e \<Rightarrow> Inl e
                | Inr (ns, bfs'') \<Rightarrow> Inr (n # ns, bfs''))))"

definition front_unvisited :: "FilteringBFS \<Rightarrow> bool" where
  "front_unvisited bfs = (case m_pending bfs of [] \<Rightarrow> True | n # _ \<Rightarrow> \<not> m_visited bfs n)"

section \<open>NodeSPQRRotation\<close>










section \<open>The SyncPlan constructor\<close>

subsection \<open>Graph operations\<close>

text \<open>
  Modelled from the spec: the class \<open>Graph\<close> and the functions \<open>newNode\<close>,
  \<open>reverseAdjEdges\<close> and \<open>splitEdge\<close> are missing from the sources. The graph is a
  mutable set of nodes and edges with a list of adjacency entries at every node. A new
  node takes the next free index and has no entries; \<open>reverseAdjEdges\<close> reverses the list
  of one node. \<open>splitEdge\<close> reroutes an edge through two nodes: the edge keeps its source
  and now ends at the first node, and a new edge, with the next free index, leads from the
  second node to the old target, where its entry takes the place of the old entry. Each
  of the two nodes gets its entry at the end of its list. The variant for an adjacency
  entry names the two nodes by the side of the entry they come to lie on.
\<close>

definition newNode :: "Graph \<Rightarrow> node \<times> Graph" where
  "newNode G =
     (let v = nodeIdCount G in
      (v, G\<lparr>nodes := nodes G @ [v], adjEntries := (adjEntries G)(v := []),
             nodeIdCount := Suc v\<rparr>))"

definition reverseAdjEdges :: "Graph \<Rightarrow> node \<Rightarrow> Graph" where
  "reverseAdjEdges G v = G\<lparr>adjEntries := (adjEntries G)(v := rev (adjEntries G v))\<rparr>"

definition replace_adj :: "adjEntry \<Rightarrow> adjEntry \<Rightarrow> adjEntry list \<Rightarrow> adjEntry list" where
  "replace_adj a b xs = map (\<lambda>x. if x = a then b else x) xs"

definition splitEdge_edge :: "Graph \<Rightarrow> edge \<Rightarrow> node \<Rightarrow> node \<Rightarrow> Graph" where
  "splitEdge_edge G old_edge new_adj_to_source new_adj_to_target =
     (let new_edge = edgeIdCount G;
          t = target G old_edge;
          adj1 = (adjEntries G)(t := replace_adj (Adj old_edge False) (Adj new_edge False) (adjEntries G t));
          adj2 = adj1(new_adj_to_source := adj1 new_adj_to_source @ [Adj old_edge False]);
          adj3 = adj2(new_adj_to_target := adj2 new_adj_to_target @ [Adj new_edge True])
      in G\<lparr>edges := edges G @ [new_edge],
            source := (source G)(new_edge := new_adj_to_target),
            target := (target G)(old_edge := new_adj_to_source, new_edge := t),
            adjEntries := adj3,
            edgeIdCount := Suc new_edge\<rparr>)"

definition splitEdge :: "Graph \<Rightarrow> adjEntry \<Rightarrow> node \<Rightarrow> node \<Rightarrow> Graph" where
  "splitEdge G adj new_adj_to_node new_adj_to_twin =
     (if isSource adj
      then splitEdge_edge G (theEdge adj) new_adj_to_node new_adj_to_twin
      else splitEdge_edge G (theEdge adj) new_adj_to_twin new_adj_to_node)"

subsection \<open>ClusterGraph\<close>

text \<open>
  Modelled from the spec: the class \<open>ClusterGraph\<close> is missing from the sources. It keeps
  the tree of the clusters, the list of the nodes of every cluster and the cluster of
  every node. \<open>reassignNode\<close> takes a node out of the list of its cluster and puts it at
  the end of the list of another. As an observer of the graph the cluster graph assigns a
  new node to the root cluster and forgets a deleted one. \<open>adjAvailable\<close> tells whether
  the lists of perimeter-crossing adjacency entries of the clusters are up to date.
\<close>

record ClusterGraph =
  clusters :: "cluster list"
  rootCluster :: cluster
  parent :: "cluster \<Rightarrow> cluster option"
  cnodes :: "cluster \<Rightarrow> node list"
  clusterOf :: "node \<Rightarrow> cluster option"
  cAdjEntries :: "cluster \<Rightarrow> adjEntry list"
  postOrder :: "cluster list"
  adjAvailable :: bool

definition unassignNode :: "ClusterGraph \<Rightarrow> node \<Rightarrow> ClusterGraph" where
  "unassignNode cg v =
     (case clusterOf cg v of
        None \<Rightarrow> cg
      | Some c \<Rightarrow> cg\<lparr>cnodes := (cnodes cg)(c := remove1 v (cnodes cg c)),
                     clusterOf := (clusterOf cg)(v := None)\<rparr>)"

definition assignNode :: "ClusterGraph \<Rightarrow> node \<Rightarrow> cluster \<Rightarrow> ClusterGraph" where
  "assignNode cg v c =
     cg\<lparr>cnodes := (cnodes cg)(c := cnodes cg c @ [v]), clusterOf := (clusterOf cg)(v \<mapsto> c)\<rparr>"

definition reassignNode :: "ClusterGraph \<Rightarrow> node \<Rightarrow> cluster \<Rightarrow> ClusterGraph" where
  "reassignNode cg v c = assignNode (unassignNode cg v) v c"

definition nodeAdded :: "ClusterGraph \<Rightarrow> node \<Rightarrow> ClusterGraph" where
  "nodeAdded cg v = assignNode cg v (rootCluster cg)"

definition nodeDeleted :: "ClusterGraph \<Rightarrow> node \<Rightarrow> ClusterGraph" where
  "nodeDeleted cg v = unassignNode cg v"

subsection \<open>PMatching\<close>

text \<open>
  Modelled from the spec: the class \<open>PMatching\<close> is missing from the sources. It owns the
  pipes, pairs of nodes of the same degree; \<open>matchNodes\<close> asserts the degrees to be equal
  and registers the pair.
\<close>

record PMatching =
  pipes :: "(node \<times> node) list"
  twins :: "node \<Rightarrow> node option"

definition matchNodes :: "Graph \<Rightarrow> PMatching \<Rightarrow> node \<Rightarrow> node \<Rightarrow> error + PMatching" where
  "matchNodes G m f s =
     (if degree G f \<noteq> degree G s then Inl AssertionFailed
      else Inr (m\<lparr>pipes := pipes m @ [(f, s)], twins := (twins m)(f \<mapsto> s, s \<mapsto> f)\<rparr>))"

subsection \<open>UndoInitCluster\<close>

text \<open>
  \<open>FrozenCluster\<close> and the constructor of \<open>UndoInitCluster\<close>: the clusters are frozen in
  post-order, each pushed to the front of the list, with their index, the index of their
  parent (\<open>-1\<close> for the root), no parent node yet, and the indices of their nodes.
\<close>

record FrozenCluster =
  fc_index :: int
  fc_parent :: int
  fc_parent_node :: int
  fc_nodes :: "int list"

definition freeze :: "ClusterGraph \<Rightarrow> cluster \<Rightarrow> FrozenCluster" where
  "freeze cg c =
     \<lparr>fc_index = int c,
      fc_parent = (case parent cg c of Some p \<Rightarrow> int p | None \<Rightarrow> - 1),
      fc_parent_node = - 1,
      fc_nodes = map int (cnodes cg c)\<rparr>"

definition UndoInitCluster_new :: "ClusterGraph \<Rightarrow> FrozenCluster list" where
  "UndoInitCluster_new cg = fold (\<lambda>c acc. freeze cg c # acc) (postOrder cg) []"

datatype UndoOperation = ResetIndices | UndoInitCluster "FrozenCluster list"

subsection \<open>The two loops of the constructor\<close>

text \<open>
  The constructor walks the clusters in post-order twice. The first loop creates the two
  gray nodes of every cluster but the root, reroutes the perimeter-crossing edges of the
  cluster through them and registers the pipe; the second moves the nodes of every
  cluster but the root to the root cluster. An assertion that fails and a null pointer that
  is read are errors. The attributes of the drawing, the log output, and the components
  and the heap of pipes that \<open>initComponents\<close> and \<open>rebuildHeap\<close> set up are left out: the
  properties below do not read them.
\<close>

text \<open>The augmentation vector the caller may pass: a pointer to a vector of pairs of
  adjacency entries, each of which may be \<open>nullptr\<close>.\<close>

type_synonym augmentation = "(adjEntry option \<times> adjEntry option) list option"

record SyncPlan =
  sp_G :: Graph
  matchings :: PMatching
  undo_stack :: "UndoOperation list"

record ctor_state =
  cs_G :: Graph
  cs_cg :: ClusterGraph
  cs_matchings :: PMatching
  cs_op :: "FrozenCluster list"

definition is_crossing :: "Graph \<Rightarrow> ClusterGraph \<Rightarrow> cluster \<Rightarrow> adjEntry \<Rightarrow> bool" where
  "is_crossing G cg c adj = (Some c \<noteq> clusterOf cg (twinNode G adj))"

fun rerouteNodes ::
  "ClusterGraph \<Rightarrow> cluster \<Rightarrow> node \<Rightarrow> node \<Rightarrow> node list \<Rightarrow> nat \<times> Graph \<Rightarrow> nat \<times> Graph" where
  "rerouteNodes cg c cn pn [] (count, G) = (count, G)"
| "rerouteNodes cg c cn pn (n # ns) (count, G) =
     (if n = cn then rerouteNodes cg c cn pn ns (count, G)
      else
        let adjs = filter (is_crossing G cg c) (adjEntries G n)
        in rerouteNodes cg c cn pn ns
             (count + length adjs, fold (\<lambda>adj G'. splitEdge G' (twin adj) pn cn) adjs G))"

definition initCluster :: "cluster \<Rightarrow> nat \<Rightarrow> ctor_state \<Rightarrow> error + ctor_state" where
  "initCluster c fc_it st =
     (case parent (cs_cg st) c of
        None \<Rightarrow> Inl NullPointer
      | Some p \<Rightarrow>
          let (cn, G1) = newNode (cs_G st);
              cg1 = nodeAdded (cs_cg st) cn;
              (pn, G2) = newNode G1;
              cg2 = nodeAdded cg1 pn;
              cg3 = reassignNode cg2 cn c;
              cg4 = reassignNode cg3 pn p;
              op = cs_op st
          in if \<not> fc_it < length op then Inl AssertionFailed
             else if fc_index (rev op ! fc_it) \<noteq> int c then Inl AssertionFailed
             else
               let op' = op[length op - 1 - fc_it := (rev op ! fc_it)\<lparr>fc_parent_node := int cn\<rparr>];
                   (count, G3) = rerouteNodes cg4 c cn pn (cnodes cg4 c) (0, G2);
                   G4 = (if count = 0 then G3 else reverseAdjEdges G3 pn)
               in case matchNodes G4 (cs_matchings st) cn pn of
                    Inl e \<Rightarrow> Inl e
                  | Inr m \<Rightarrow> Inr \<lparr>cs_G = G4, cs_cg = cg4, cs_matchings = m, cs_op = op'\<rparr>)"

fun initClusters :: "cluster list \<Rightarrow> nat \<Rightarrow> ctor_state \<Rightarrow> error + ctor_state" where
  "initClusters [] fc_it st = Inl NullPointer"
| "initClusters (c # cs) fc_it st =
     (if c = rootCluster (cs_cg st)
      then (if \<not> fc_it < length (cs_op st) then Inl AssertionFailed
            else if fc_index (rev (cs_op st) ! fc_it) \<noteq> int (rootCluster (cs_cg st)) then Inl AssertionFailed
            else if Suc fc_it \<noteq> length (cs_op st) then Inl AssertionFailed
            else Inr st)
      else case initCluster c fc_it st of
             Inl e \<Rightarrow> Inl e
           | Inr st' \<Rightarrow> initClusters cs (Suc fc_it) st')"

partial_function (option) drainCluster :: "ClusterGraph \<Rightarrow> cluster \<Rightarrow> ClusterGraph option" where
  "drainCluster cg c =
     (case cnodes cg c of
        [] \<Rightarrow> Some cg
      | n # _ \<Rightarrow> drainCluster (reassignNode cg n (rootCluster cg)) c)"

declare drainCluster.simps [code]

fun flattenClusters :: "cluster list \<Rightarrow> ClusterGraph \<Rightarrow> (error + ClusterGraph) option" where
  "flattenClusters [] cg = Some (Inl NullPointer)"
| "flattenClusters (c # cs) cg =
     (if c = rootCluster cg then Some (Inr cg)
      else case drainCluster cg c of
             None \<Rightarrow> None
           | Some cg' \<Rightarrow> flattenClusters cs cg')"

definition ctor_init :: "Graph \<Rightarrow> ClusterGraph \<Rightarrow> ctor_state" where
  "ctor_init g cg =
     \<lparr>cs_G = g, cs_cg = cg, cs_matchings = \<lparr>pipes = [], twins = (\<lambda>_. None)\<rparr>,
      cs_op = UndoInitCluster_new cg\<rparr>"

definition SyncPlan_new ::
  "Graph \<Rightarrow> ClusterGraph \<Rightarrow> augmentation
     \<Rightarrow> (error + SyncPlan \<times> ClusterGraph \<times> augmentation) option" where
  "SyncPlan_new g cg augmentation =
     (let augmentation' = (case augmentation of None \<Rightarrow> None | Some _ \<Rightarrow> Some [])
      in case initClusters (postOrder cg) 0 (ctor_init g cg) of
           Inl e \<Rightarrow> Some (Inl e)
         | Inr st1 \<Rightarrow>
             (case flattenClusters (postOrder (cs_cg st1)) (cs_cg st1) of
                None \<Rightarrow> None
              | Some (Inl e) \<Rightarrow> Some (Inl e)
              | Some (Inr cg') \<Rightarrow>
                  Some (Inr (\<lparr>sp_G = cs_G st1, matchings = cs_matchings st1,
                              undo_stack = [ResetIndices, UndoInitCluster (cs_op st1)]\<rparr>,
                             cg', augmentation'))))"

subsection \<open>Well-formed inputs\<close>

text \<open>
  The chain \<open>firstPostOrderCluster()\<close>, \<open>pSucc()\<close> lists every cluster once, a cluster
  before its parent and the root last; every cluster but the root has a parent.
\<close>

definition postOrder_ok :: "ClusterGraph \<Rightarrow> bool" where
  "postOrder_ok cg =
     (postOrder cg \<noteq> [] \<and> last (postOrder cg) = rootCluster cg \<and> distinct (postOrder cg) \<and>
      set (postOrder cg) = set (clusters cg) \<and> parent cg (rootCluster cg) = None \<and>
      (\<forall>i<length (postOrder cg) - 1.
         \<exists>p\<in>set (drop (Suc i) (postOrder cg)). parent cg (postOrder cg ! i) = Some p))"

text \<open>
  Every node of the graph belongs to exactly one cluster, and the node list of a cluster
  holds the nodes that belong to it, each once.
\<close>

definition cg_consistent :: "node list \<Rightarrow> ClusterGraph \<Rightarrow> bool" where
  "cg_consistent ns cg =
     ((\<forall>c\<in>set (clusters cg). distinct (cnodes cg c) \<and>
          (\<forall>n\<in>set (cnodes cg c). clusterOf cg n = Some c \<and> n \<in> set ns)) \<and>
      (\<forall>n\<in>set ns. \<exists>c\<in>set (clusters cg). clusterOf cg n = Some c \<and> n \<in> set (cnodes cg c)))"

definition ClusterGraph_ok :: "Graph \<Rightarrow> ClusterGraph \<Rightarrow> bool" where
  "ClusterGraph_ok g cg =
     (postOrder_ok cg \<and> cg_consistent (nodes g) cg \<and> (\<forall>n\<in>set (nodes g). n < nodeIdCount g))"

text \<open>
  Every adjacency entry stands once, in the list of the node at its end of the edge;
  that node and the node at the other end are nodes of the graph, with indices below
  the next free one, as the index of the edge is.
\<close>

definition Graph_ok :: "Graph \<Rightarrow> bool" where
  "Graph_ok G =
     ((\<forall>n\<in>set (nodes G). n < nodeIdCount G) \<and>
      (\<forall>n. distinct (adjEntries G n)) \<and>
      (\<forall>n a. a \<in> set (adjEntries G n) \<longrightarrow>
         n \<in> set (nodes G) \<and> theNode G a = n \<and> twinNode G a \<in> set (nodes G) \<and>
         theEdge a < edgeIdCount G))"

text \<open>The first iterations of the loop over the clusters, those for the clusters given:
  the state in which the next iteration starts.\<close>

fun initClusters_upto :: "cluster list \<Rightarrow> nat \<Rightarrow> ctor_state \<Rightarrow> error + ctor_state" where
  "initClusters_upto [] fc_it st = Inr st"
| "initClusters_upto (c # cs) fc_it st =
     (case initCluster c fc_it st of
        Inl e \<Rightarrow> Inl e
      | Inr st' \<Rightarrow> initClusters_upto cs (Suc fc_it) st')"

text \<open>The perimeter-crossing adjacency entries of a cluster, in the order in which the
  loops over its nodes and their entries meet them.\<close>

definition crossingEntries :: "Graph \<Rightarrow> ClusterGraph \<Rightarrow> cluster \<Rightarrow> adjEntry list" where
  "crossingEntries G cg c =
     concat (map (\<lambda>n. filter (is_crossing G cg c) (adjEntries G n)) (cnodes cg c))"

subsection \<open>UndoInitCluster::undo\<close>

text \<open>
  Modelled from the spec: \<open>SyncPlan::nodeFromIndex\<close>, the \<open>PMatching\<close> operations
  \<open>getTwin\<close>, \<open>getIncidentEdgeBijection\<close> and \<open>removeMatching\<close>, and \<open>join\<close> are missing
  from the sources. The bijection of a pipe pairs the adjacency entries of one node, in
  their order, with those of its partner in reverse order, and is asserted to join nodes
  of the same degree. \<open>join\<close> merges the two edges of every pair into one direct edge
  between their far ends, which keeps the first entry of the pair, and removes the two
  gray nodes.
\<close>

definition nodeFromIndex :: "Graph \<Rightarrow> int \<Rightarrow> node option" where
  "nodeFromIndex G i = (if 0 \<le> i \<and> nat i \<in> set (nodes G) then Some (nat i) else None)"

definition getTwin :: "PMatching \<Rightarrow> node \<Rightarrow> node option" where
  "getTwin m n = twins m n"

definition getIncidentEdgeBijection ::
  "Graph \<Rightarrow> PMatching \<Rightarrow> node \<Rightarrow> error + (adjEntry \<times> adjEntry) list" where
  "getIncidentEdgeBijection G m u =
     (case getTwin m u of
        None \<Rightarrow> Inl AssertionFailed
      | Some v \<Rightarrow>
          if degree G u \<noteq> degree G v then Inl AssertionFailed
          else Inr (zip (adjEntries G u) (rev (adjEntries G v))))"

definition removeMatching :: "PMatching \<Rightarrow> node \<Rightarrow> node \<Rightarrow> PMatching" where
  "removeMatching m n t =
     m\<lparr>pipes := filter (\<lambda>p. p \<noteq> (n, t) \<and> p \<noteq> (t, n)) (pipes m),
       twins := (twins m)(n := None, t := None)\<rparr>"

definition joinEdge :: "Graph \<Rightarrow> adjEntry \<Rightarrow> adjEntry \<Rightarrow> node \<Rightarrow> node \<Rightarrow> Graph" where
  "joinEdge G u_adj v_adj u v =
     (let e = theEdge u_adj;
          y = twinNode G v_adj;
          adj1 = (adjEntries G)(u := remove1 u_adj (adjEntries G u));
          adj2 = adj1(v := remove1 v_adj (adj1 v));
          adj3 = adj2(y := replace_adj (twin v_adj) u_adj (adj2 y))
      in G\<lparr>edges := remove1 (theEdge v_adj) (edges G),
            source := (if isSource u_adj then (source G)(e := y) else source G),
            target := (if isSource u_adj then target G else (target G)(e := y)),
            adjEntries := adj3\<rparr>)"

definition delNode :: "Graph \<Rightarrow> node \<Rightarrow> Graph" where
  "delNode G v = G\<lparr>nodes := remove1 v (nodes G), adjEntries := (adjEntries G)(v := [])\<rparr>"

definition join :: "Graph \<Rightarrow> node \<Rightarrow> node \<Rightarrow> (adjEntry \<times> adjEntry) list \<Rightarrow> Graph" where
  "join G u v pbij = delNode (delNode (fold (\<lambda>pair G'. joinEdge G' (fst pair) (snd pair) u v) pbij G) u) v"

record undo_state =
  us_G :: Graph
  us_matchings :: PMatching
  us_cg :: ClusterGraph
  us_augmentation :: augmentation

text \<open>The loop over the bijection in \<open>processCluster\<close>.\<close>

fun boundaryLoop ::
  "(edge \<Rightarrow> int) \<Rightarrow> cluster \<Rightarrow> (adjEntry \<times> adjEntry) list \<Rightarrow> int \<Rightarrow> adjEntry option
     \<Rightarrow> ClusterGraph \<times> augmentation \<Rightarrow> ClusterGraph \<times> augmentation" where
  "boundaryLoop bicomps c [] bc_nr pred (cg, aug) = (cg, aug)"
| "boundaryLoop bicomps c (pair # pbij) bc_nr pred (cg, aug) =
     (let curr = twin (fst pair);
          cg' = cg\<lparr>cAdjEntries := (cAdjEntries cg)(c := cAdjEntries cg c @ [curr])\<rparr>
      in case aug of
           None \<Rightarrow> boundaryLoop bicomps c pbij bc_nr (Some curr) (cg', aug)
         | Some ps \<Rightarrow>
             if bicomps (theEdge (fst pair)) \<noteq> bc_nr
             then boundaryLoop bicomps c pbij (bicomps (theEdge (fst pair))) (Some curr)
                    (cg', Some (ps @ [(pred, Some curr)]))
             else boundaryLoop bicomps c pbij bc_nr (Some curr) (cg', aug))"

definition processCluster ::
  "(edge \<Rightarrow> int) \<Rightarrow> undo_state \<Rightarrow> cluster \<Rightarrow> int \<Rightarrow> error + undo_state" where
  "processCluster bicomps pq c parent_node =
     (case nodeFromIndex (us_G pq) parent_node of
        None \<Rightarrow> Inl NullPointer
      | Some n \<Rightarrow>
          (case getTwin (us_matchings pq) n of
             None \<Rightarrow> Inl AssertionFailed
           | Some t \<Rightarrow>
               (case getIncidentEdgeBijection (us_G pq) (us_matchings pq) t of
                  Inl e \<Rightarrow> Inl e
                | Inr pbij \<Rightarrow>
                    let m' = removeMatching (us_matchings pq) n t;
                        G' = join (us_G pq) t n pbij;
                        cg' = nodeDeleted (nodeDeleted (us_cg pq) t) n
                    in if us_augmentation pq \<noteq> None \<and> pbij = [] then Inl NullPointer
                       else
                         let bc_nr = (if us_augmentation pq \<noteq> None
                                      then bicomps (theEdge (fst (hd pbij))) else - 1);
                             (cg'', aug') = boundaryLoop bicomps c pbij bc_nr None (cg', us_augmentation pq)
                         in Inr \<lparr>us_G = G', us_matchings = m', us_cg = cg'',
                                 us_augmentation = aug'\<rparr>)))"

definition cluster_index :: "ClusterGraph \<Rightarrow> int \<Rightarrow> cluster option" where
  "cluster_index cg i = (if 0 \<le> i \<and> nat i \<in> set (clusters cg) then Some (nat i) else None)"

fun reassignNodes :: "Graph \<Rightarrow> ClusterGraph \<Rightarrow> cluster \<Rightarrow> int list \<Rightarrow> error + ClusterGraph" where
  "reassignNodes G cg c [] = Inr cg"
| "reassignNodes G cg c (n # ns) =
     (case nodeFromIndex G n of
        None \<Rightarrow> Inl NullPointer
      | Some v \<Rightarrow> reassignNodes G (reassignNode cg v c) c ns)"

fun undoClusters :: "(edge \<Rightarrow> int) \<Rightarrow> FrozenCluster list \<Rightarrow> undo_state \<Rightarrow> error + undo_state" where
  "undoClusters bicomps [] pq = Inr pq"
| "undoClusters bicomps (fc # fcs) pq =
     (if fc_index fc = int (rootCluster (us_cg pq))
      then (if fc_parent fc \<noteq> - 1 then Inl AssertionFailed
            else case reassignNodes (us_G pq) (us_cg pq) (rootCluster (us_cg pq)) (fc_nodes fc) of
                   Inl e \<Rightarrow> Inl e
                 | Inr cg' \<Rightarrow> undoClusters bicomps fcs (pq\<lparr>us_cg := cg'\<rparr>))
      else if \<not> fc_parent fc \<ge> 0 then Inl AssertionFailed
      else if cluster_index (us_cg pq) (fc_parent fc) = None then Inl AssertionFailed
      else case cluster_index (us_cg pq) (fc_index fc) of
             None \<Rightarrow> Inl NullPointer
           | Some c \<Rightarrow>
               (case processCluster bicomps pq c (fc_parent_node fc) of
                  Inl e \<Rightarrow> Inl e
                | Inr pq' \<Rightarrow>
                    (case reassignNodes (us_G pq') (us_cg pq') c (fc_nodes fc) of
                       Inl e \<Rightarrow> Inl e
                     | Inr cg' \<Rightarrow> undoClusters bicomps fcs (pq'\<lparr>us_cg := cg'\<rparr>))))"

text \<open>\<open>biconnectedComponents\<close> is not in the sources: the undo takes it as a parameter
  and calls it only when an augmentation vector was given.\<close>

definition UndoInitCluster_undo ::
  "(Graph \<Rightarrow> edge \<Rightarrow> int) \<Rightarrow> FrozenCluster list \<Rightarrow> undo_state \<Rightarrow> error + undo_state" where
  "UndoInitCluster_undo biconnectedComponents fcs pq =
     (let bicomps = (if us_augmentation pq \<noteq> None then biconnectedComponents (us_G pq)
                     else (\<lambda>_. - 1));
          cg1 = (us_cg pq)\<lparr>cAdjEntries :=
                   (cAdjEntries (us_cg pq))(rootCluster (us_cg pq) := [])\<rparr>
      in case undoClusters bicomps fcs (pq\<lparr>us_cg := cg1\<rparr>) of
           Inl e \<Rightarrow> Inl e
         | Inr pq' \<Rightarrow> Inr (pq'\<lparr>us_cg := (us_cg pq')\<lparr>adjAvailable := True\<rparr>\<rparr>))"

text \<open>The undo record the constructor pushed last, applied to what the constructor left.\<close>

definition construct_then_undo ::
  "(Graph \<Rightarrow> edge \<Rightarrow> int) \<Rightarrow> Graph \<Rightarrow> ClusterGraph \<Rightarrow> augmentation \<Rightarrow> (error + undo_state) option" where
  "construct_then_undo biconnectedComponents g cg aug =
     (case SyncPlan_new g cg aug of
        None \<Rightarrow> None
      | Some (Inl e) \<Rightarrow> Some (Inl e)
      | Some (Inr (SP, cg', aug')) \<Rightarrow>
          (case undo_stack SP of
             [_, UndoInitCluster fcs] \<Rightarrow>
               Some (UndoInitCluster_undo biconnectedComponents fcs
                 \<lparr>us_G = sp_G SP, us_matchings = matchings SP, us_cg = cg', us_augmentation = aug'\<rparr>)
           | _ \<Rightarrow> Some (Inl AssertionFailed)))"

section \<open>SyncPlanClusterPlanarityModule\<close>

text \<open>
  \<open>SyncPlan::makeReduced\<close>, \<open>SyncPlan::solveReduced\<close> and \<open>SyncPlan::embed\<close>, the copy
  constructor of \<open>ClusterGraph\<close>, \<open>copyEmbedding\<close> and \<open>EdgeArray::mapEndpoint\<close> are
  not part of the sources at hand. The module functions are parametrised by them: each
  works on the objects the \<open>SyncPlan\<close> object points to (its graph, the cluster graph
  and the augmentation vector).
\<close>

type_synonym sp_world = "SyncPlan \<times> ClusterGraph \<times> augmentation"

datatype sp_call = MakeReduced | SolveReduced | Embed

record collaborators =
  makeReduced :: "sp_world \<Rightarrow> bool \<times> sp_world"
  solveReduced :: "sp_world \<Rightarrow> bool \<times> sp_world"
  embed :: "sp_world \<Rightarrow> sp_world"
  copyClusterGraph :: "ClusterGraph \<Rightarrow> Graph \<Rightarrow> ClusterGraph \<times> Graph \<times> (cluster \<Rightarrow> cluster) \<times> (edge \<Rightarrow> edge option)"
  copyEmbedding :: "Graph \<Rightarrow> Graph \<Rightarrow> (adjEntry \<Rightarrow> adjEntry) \<Rightarrow> Graph"
  mapEndpoint :: "(edge \<Rightarrow> edge option) \<Rightarrow> adjEntry \<Rightarrow> adjEntry"

text \<open>
  A run of a module function carries the log of the calls made so far together with the
  objects. Calling one of the three operations applies it to the objects and appends
  its name to the log; nothing else writes the log.
\<close>

type_synonym sp_run = "sp_call list \<times> sp_world"

definition call_makeReduced :: "collaborators \<Rightarrow> sp_run \<Rightarrow> bool \<times> sp_run" where
  "call_makeReduced K R =
     (let (r, w) = makeReduced K (snd R) in (r, (fst R @ [MakeReduced], w)))"

definition call_solveReduced :: "collaborators \<Rightarrow> sp_run \<Rightarrow> bool \<times> sp_run" where
  "call_solveReduced K R =
     (let (r, w) = solveReduced K (snd R) in (r, (fst R @ [SolveReduced], w)))"

definition call_embed :: "collaborators \<Rightarrow> sp_run \<Rightarrow> sp_run" where
  "call_embed K R = (fst R @ [Embed], embed K (snd R))"

text \<open>The result of a module function: the value returned, the calls made, and the
  caller's cluster graph, graph and augmentation vector afterwards.\<close>

record module_result =
  returned :: bool
  calls :: "sp_call list"
  res_CG :: ClusterGraph
  res_G :: Graph
  res_augmentation :: augmentation

definition isClusterPlanarDestructive ::
  "collaborators \<Rightarrow> ClusterGraph \<Rightarrow> Graph \<Rightarrow> augmentation \<Rightarrow> (error + module_result) option" where
  "isClusterPlanarDestructive K CG G m_augmentation =
     (case SyncPlan_new G CG None of
        None \<Rightarrow> None
      | Some (Inl e) \<Rightarrow> Some (Inl e)
      | Some (Inr SP) \<Rightarrow>
          let (r1, R1) = call_makeReduced K ([], SP) in
          if r1
          then let (r2, R2) = call_solveReduced K R1 in
               Some (Inr \<lparr>returned = r2, calls = fst R2,
                          res_CG = fst (snd (snd R2)), res_G = sp_G (fst (snd R2)),
                          res_augmentation = m_augmentation\<rparr>)
          else Some (Inr \<lparr>returned = False, calls = fst R1,
                          res_CG = fst (snd (snd R1)), res_G = sp_G (fst (snd R1)),
                          res_augmentation = m_augmentation\<rparr>))"

definition clusterPlanarEmbedClusterPlanarGraph ::
  "collaborators \<Rightarrow> ClusterGraph \<Rightarrow> Graph \<Rightarrow> augmentation \<Rightarrow> (error + module_result) option" where
  "clusterPlanarEmbedClusterPlanarGraph K CG G m_augmentation =
     (case SyncPlan_new G CG m_augmentation of
        None \<Rightarrow> None
      | Some (Inl e) \<Rightarrow> Some (Inl e)
      | Some (Inr SP) \<Rightarrow>
          let (r1, R1) = call_makeReduced K ([], SP) in
          if r1
          then let (r2, R2) = call_solveReduced K R1 in
               if r2
               then let R3 = call_embed K R2 in
                    Some (Inr \<lparr>returned = True, calls = fst R3,
                               res_CG = fst (snd (snd R3)), res_G = sp_G (fst (snd R3)),
                               res_augmentation = snd (snd (snd R3))\<rparr>)
               else Some (Inr \<lparr>returned = False, calls = fst R2,
                               res_CG = fst (snd (snd R2)), res_G = sp_G (fst (snd R2)),
                               res_augmentation = snd (snd (snd R2))\<rparr>)
          else Some (Inr \<lparr>returned = False, calls = fst R1,
                          res_CG = fst (snd (snd R1)), res_G = sp_G (fst (snd R1)),
                          res_augmentation = snd (snd (snd R1))\<rparr>))"

text \<open>\<open>invertRegisteredArray(copyE, origE)\<close>: \<open>origE[copyE[e]] = e\<close> for the edges of \<open>G\<close>.\<close>

definition invertRegisteredArray :: "edge list \<Rightarrow> (edge \<Rightarrow> edge option) \<Rightarrow> (edge \<Rightarrow> edge option)" where
  "invertRegisteredArray es copyE = fold (\<lambda>e origE. case copyE e of None \<Rightarrow> origE | Some e' \<Rightarrow> origE(e' \<mapsto> e)) es (\<lambda>_. None)"

definition clusterPlanarEmbed ::
  "collaborators \<Rightarrow> ClusterGraph \<Rightarrow> Graph \<Rightarrow> augmentation \<Rightarrow> (error + module_result) option" where
  "clusterPlanarEmbed K CG G m_augmentation =
     (let (CGcopy, Gcopy, copyC, copyE) = copyClusterGraph K CG G;
          origE = invertRegisteredArray (edges G) copyE
      in case SyncPlan_new Gcopy CGcopy m_augmentation of
           None \<Rightarrow> None
         | Some (Inl e) \<Rightarrow> Some (Inl e)
         | Some (Inr SP) \<Rightarrow>
             let (r1, R1) = call_makeReduced K ([], SP) in
             if r1
             then let (r2, R2) = call_solveReduced K R1 in
                  if r2
                  then let R3 = call_embed K R2;
                           Gcopy' = sp_G (fst (snd R3));
                           CGcopy' = fst (snd (snd R3));
                           CG1 = CG\<lparr>adjAvailable := True\<rparr>;
                           G' = copyEmbedding K Gcopy' G (mapEndpoint K origE);
                           CG2 = fold (\<lambda>c cg. cg\<lparr>cAdjEntries := (cAdjEntries cg)
                                    (c := map (mapEndpoint K origE) (cAdjEntries CGcopy' (copyC c)))\<rparr>)
                                   (clusters CG1) CG1;
                           aug' = (case snd (snd (snd R3)) of
                                     None \<Rightarrow> None
                                   | Some ps \<Rightarrow> Some (map (\<lambda>(a, b). (map_option (mapEndpoint K origE) a,
                                                                 map_option (mapEndpoint K origE) b)) ps))
                       in Some (Inr \<lparr>returned = True, calls = fst R3,
                                  res_CG = CG2, res_G = G', res_augmentation = aug'\<rparr>)
                  else Some (Inr \<lparr>returned = False, calls = fst R2,
                                  res_CG = CG, res_G = G, res_augmentation = snd (snd (snd R2))\<rparr>)
             else Some (Inr \<lparr>returned = False, calls = fst R1,
                             res_CG = CG, res_G = G, res_augmentation = snd (snd (snd R1))\<rparr>))"

definition triangle :: Graph where
  "triangle = \<lparr>nodes = [0, 1, 2], edges = [0, 1, 2],
     source = (\<lambda>e. e), target = (\<lambda>e. if e = 2 then 0 else e + 1),
     adjEntries = (\<lambda>n. if n = 0 then [Adj 0 True, Adj 2 False]
                        else if n = 1 then [Adj 0 False, Adj 1 True]
                        else if n = 2 then [Adj 1 False, Adj 2 True] else []),
     nodeIdCount = 3, edgeIdCount = 3\<rparr>"


text \<open>A triangle whose nodes 0 and 1 lie in a child cluster and whose node 2 lies in the root.\<close>

definition cg_tri :: ClusterGraph where
  "cg_tri = \<lparr>clusters = [0, 1], rootCluster = 0,
     parent = (\<lambda>c. if c = 1 then Some 0 else None),
     cnodes = (\<lambda>c. if c = 0 then [2] else if c = 1 then [0, 1] else []),
     clusterOf = (\<lambda>n. if n = 0 \<or> n = 1 then Some 1 else if n = 2 then Some 0 else None),
     cAdjEntries = (\<lambda>_. []),
     postOrder = [1, 0],
     adjAvailable = False\<rparr>"

text \<open>Stand-ins for the operations that are not at hand: the reduction succeeds or fails
  as the first argument says, the solving as the second, nothing else happens, and the
  copy of a cluster graph keeps every index.\<close>

definition K_ex :: "bool \<Rightarrow> bool \<Rightarrow> collaborators" where
  "K_ex r1 r2 =
     \<lparr>makeReduced = (\<lambda>w. (r1, w)), solveReduced = (\<lambda>w. (r2, w)), embed = (\<lambda>w. w),
      copyClusterGraph = (\<lambda>cg g. (cg, g, (\<lambda>c. c), Some)),
      copyEmbedding = (\<lambda>from to f. to\<lparr>adjEntries := adjEntries from\<rparr>),
      mapEndpoint = (\<lambda>origE adj. case origE (theEdge adj) of None \<Rightarrow> adj | Some e \<Rightarrow> Adj e (isSource adj))\<rparr>"

text \<open>The same stand-ins with an \<open>embed\<close> that leaves a trace: it marks the adjacency
  entries of the clusters available.\<close>

definition K_mark :: "bool \<Rightarrow> bool \<Rightarrow> collaborators" where
  "K_mark r1 r2 =
     (K_ex r1 r2)\<lparr>embed := (\<lambda>w. (fst w, (fst (snd w))\<lparr>adjAvailable := True\<rparr>, snd (snd w)))\<rparr>"

text \<open>A single node without edges, in a child cluster of the root.\<close>

definition g_one :: Graph where
  "g_one = \<lparr>nodes = [0], edges = [], source = (\<lambda>_. 0), target = (\<lambda>_. 0),
     adjEntries = (\<lambda>_. []), nodeIdCount = 1, edgeIdCount = 0\<rparr>"

definition cg_one :: ClusterGraph where
  "cg_one = \<lparr>clusters = [0, 1], rootCluster = 0,
     parent = (\<lambda>c. if c = 1 then Some 0 else None),
     cnodes = (\<lambda>c. if c = 1 then [0] else []),
     clusterOf = (\<lambda>n. if n = 0 then Some 1 else None),
     cAdjEntries = (\<lambda>_. []),
     postOrder = [1, 0],
     adjAvailable = False\<rparr>"

chapter \<open>Properties\<close>

section \<open>FilteringBFS\<close>

lemma drain_front: "(case drain vis ns of [] \<Rightarrow> True | n # _ \<Rightarrow> \<not> vis n)"
  by (induction ns) auto

lemma drain_subset: "set (drain vis ns) \<subseteq> set ns"
  by (induction ns) auto

lemma enqueue_twins_fields:
  "m_visited (enqueue_twins G bfs adjs) = m_visited bfs \<and>
   m_visit (enqueue_twins G bfs adjs) = m_visit bfs \<and>
   m_descend (enqueue_twins G bfs adjs) = m_descend bfs"
  by (induction adjs arbitrary: bfs) (auto simp: Let_def)

lemma enqueue_twins_pending:
  "m_pending (enqueue_twins G bfs adjs) =
     m_pending bfs @ map (twinNode G)
       (filter (\<lambda>adj. \<not> m_visited bfs (twinNode G adj) \<and> m_visit bfs adj) adjs)"
  by (induction adjs arbitrary: bfs) (auto simp: Let_def)

lemma next_bfs_step:
  assumes "front_unvisited bfs" and "valid bfs"
  shows "\<exists>n rest bfs'. m_pending bfs = n # rest \<and> current bfs = Inr n \<and> \<not> m_visited bfs n \<and>
           next_bfs G bfs = Inr bfs' \<and> front_unvisited bfs' \<and>
           m_visited bfs' = (m_visited bfs)(n := True) \<and>
           m_visit bfs' = m_visit bfs \<and> m_descend bfs' = m_descend bfs \<and>
           set (m_pending bfs') \<subseteq> set rest \<union>
             {twinNode G adj | adj. adj \<in> set (adjEntries G n) \<and> m_descend bfs n \<and>
                \<not> m_visited bfs' (twinNode G adj) \<and> m_visit bfs adj}"
proof -
  from assms obtain n rest where p: "m_pending bfs = n # rest" and nv: "\<not> m_visited bfs n"
    by (cases "m_pending bfs") (auto simp: front_unvisited_def valid_def)
  define bfs1 where "bfs1 = bfs\<lparr>m_pending := rest, m_visited := (m_visited bfs)(n := True)\<rparr>"
  define bfs2 where "bfs2 = (if m_descend bfs1 n then enqueue_twins G bfs1 (adjEntries G n) else bfs1)"
  define bfs' where "bfs' = bfs2\<lparr>m_pending := drain (m_visited bfs2) (m_pending bfs2)\<rparr>"
  have nx: "next_bfs G bfs = Inr bfs'"
    using p nv by (simp add: next_bfs_def bfs1_def bfs2_def bfs'_def Let_def)
  have f2: "m_visited bfs2 = (m_visited bfs)(n := True) \<and> m_visit bfs2 = m_visit bfs \<and> m_descend bfs2 = m_descend bfs"
    by (simp add: bfs2_def enqueue_twins_fields bfs1_def)
  have fu: "front_unvisited bfs'"
    using drain_front[of "m_visited bfs2" "m_pending bfs2"]
    by (simp add: front_unvisited_def bfs'_def split: list.splits)
  have p2: "set (m_pending bfs2) \<subseteq> set rest \<union>
             {twinNode G adj | adj. adj \<in> set (adjEntries G n) \<and> m_descend bfs n \<and>
                \<not> ((m_visited bfs)(n := True)) (twinNode G adj) \<and> m_visit bfs adj}"
    by (auto simp: bfs2_def enqueue_twins_pending bfs1_def)
  have p': "set (m_pending bfs') \<subseteq> set (m_pending bfs2)"
    by (simp add: bfs'_def drain_subset)
  show ?thesis
    apply (rule exI[of _ n], rule exI[of _ rest], rule exI[of _ bfs'])
    using p nv nx fu f2 p2 p' by (auto simp: current_def bfs'_def)
qed

lemma append_bfs_front: "front_unvisited bfs \<Longrightarrow> front_unvisited (append_bfs bfs n)"
  by (auto simp: front_unvisited_def append_bfs_def split: list.splits)

lemma init_front: "front_unvisited (FilteringBFS_init ns visit descend_from)"
  by (auto simp: front_unvisited_def FilteringBFS_init_def split: list.splits)

lemma run_ops_distinct:
  "front_unvisited bfs \<Longrightarrow>
   \<exists>cs bfs'. run_ops G bfs ops = Inr (cs, bfs') \<and> front_unvisited bfs' \<and> distinct cs \<and>
      (\<forall>n. m_visited bfs n \<longrightarrow> m_visited bfs' n) \<and>
      (\<forall>n. n \<in> set cs \<longrightarrow> \<not> m_visited bfs n \<and> m_visited bfs' n)"
proof (induction G bfs ops rule: run_ops.induct)
  case (1 G bfs)
  then show ?case by simp
next
  case (2 G bfs f ops)
  have "front_unvisited (setVisitFilter bfs f)"
    using 2(2) by (simp add: front_unvisited_def setVisitFilter_def split: list.splits)
  from 2(1)[OF this] show ?case by (simp add: setVisitFilter_def)
next
  case (3 G bfs f ops)
  have "front_unvisited (setDescendFilter bfs f)"
    using 3(2) by (simp add: front_unvisited_def setDescendFilter_def split: list.splits)
  from 3(1)[OF this] show ?case by (simp add: setDescendFilter_def)
next
  case (4 G bfs ops)
  show ?case
  proof (cases "valid bfs")
    case False
    then show ?thesis using 4(2) by simp
  next
    case True
    from next_bfs_step[OF 4(2) True, of G] obtain n rest bfs1 where
      s: "current bfs = Inr n" "\<not> m_visited bfs n" "next_bfs G bfs = Inr bfs1"
         "front_unvisited bfs1" "m_visited bfs1 = (m_visited bfs)(n := True)"
      by blast
    from 4(1)[OF _ s(1) s(3) s(4)] True obtain cs bfs2 where
      r: "run_ops G bfs1 ops = Inr (cs, bfs2)" "front_unvisited bfs2" "distinct cs"
         "\<forall>m. m_visited bfs1 m \<longrightarrow> m_visited bfs2 m"
         "\<forall>m. m \<in> set cs \<longrightarrow> \<not> m_visited bfs1 m \<and> m_visited bfs2 m"
      by blast
    have "n \<notin> set cs" using r(5) s(5) by auto
    moreover have "\<forall>m. m_visited bfs m \<longrightarrow> m_visited bfs2 m" using r(4) s(5) by auto
    moreover have "\<forall>m. m \<in> set cs \<longrightarrow> \<not> m_visited bfs m \<and> m_visited bfs2 m"
      using r(5) s(5) by (auto split: if_splits)
    moreover have "m_visited bfs2 n" using r(4) s(5) by auto
    ultimately show ?thesis using True s(1-4) r(1-3) by auto
  qed
qed

text \<open>
  C10. Whenever the queue is not empty its front node is unvisited: the constructors
  establish this, \<open>append()\<close> keeps it, and \<open>next()\<close> keeps it while meeting both of
  its assertions, marking the node it pops and appending only unvisited neighbours that
  pass the visit filter. So \<open>current()\<close> returns an unvisited node, and a run without
  \<open>append()\<close> returns no node twice.
\<close>

theorem FilteringBFS_current_unvisited:
  "front_unvisited (FilteringBFS_init ns visit descend_from) \<and>
   (front_unvisited bfs \<longrightarrow> front_unvisited (append_bfs bfs a)) \<and>
   (front_unvisited bfs \<and> valid bfs \<longrightarrow>
      (\<exists>n rest bfs'. m_pending bfs = n # rest \<and> current bfs = Inr n \<and> \<not> m_visited bfs n \<and>
         next_bfs G bfs = Inr bfs' \<and> front_unvisited bfs' \<and>
         m_visited bfs' = (m_visited bfs)(n := True) \<and>
         set (m_pending bfs') \<subseteq> set rest \<union>
           {twinNode G adj | adj. adj \<in> set (adjEntries G n) \<and> m_descend bfs n \<and>
              \<not> m_visited bfs' (twinNode G adj) \<and> m_visit bfs adj})) \<and>
   (front_unvisited bfs \<longrightarrow>
      (\<exists>cs bfs'. run_ops G bfs ops = Inr (cs, bfs') \<and> front_unvisited bfs' \<and> distinct cs \<and>
         (\<forall>n. n \<in> set cs \<longrightarrow> \<not> m_visited bfs n \<and> m_visited bfs' n)))"
proof (intro conjI impI)
  show "front_unvisited (FilteringBFS_init ns visit descend_from)" by (rule init_front)
next
  assume "front_unvisited bfs"
  then show "front_unvisited (append_bfs bfs a)" by (rule append_bfs_front)
next
  assume "front_unvisited bfs \<and> valid bfs"
  then have a: "front_unvisited bfs" "valid bfs" by simp_all
  from next_bfs_step[OF a, of G]
  show "\<exists>n rest bfs'. m_pending bfs = n # rest \<and> current bfs = Inr n \<and> \<not> m_visited bfs n \<and>
         next_bfs G bfs = Inr bfs' \<and> front_unvisited bfs' \<and>
         m_visited bfs' = (m_visited bfs)(n := True) \<and>
         set (m_pending bfs') \<subseteq> set rest \<union>
           {twinNode G adj | adj. adj \<in> set (adjEntries G n) \<and> m_descend bfs n \<and>
              \<not> m_visited bfs' (twinNode G adj) \<and> m_visit bfs adj}"
    by blast
next
  assume "front_unvisited bfs"
  from run_ops_distinct[OF this, of G ops]
  show "\<exists>cs bfs'. run_ops G bfs ops = Inr (cs, bfs') \<and> front_unvisited bfs' \<and> distinct cs \<and>
         (\<forall>n. n \<in> set cs \<longrightarrow> \<not> m_visited bfs n \<and> m_visited bfs' n)"
    by blast
qed

lemma triangle_run:
  "map_sum id fst (run_ops triangle (FilteringBFS_init [0] (\<lambda>_. True) (\<lambda>_. True)) [Next, Next, Next, Next])
     = Inr [0, 1, 2]"
  by (simp add: triangle_def FilteringBFS_init_def valid_def current_def next_bfs_def
      twinNode_def theNode_def Let_def)

theorem FilteringBFS_current_unvisited_witness:
  "front_unvisited (FilteringBFS_init [0] (\<lambda>_. True) (\<lambda>_. True)) \<and>
   valid (FilteringBFS_init [0] (\<lambda>_. True) (\<lambda>_. True)) \<and>
   (\<exists>bfs'. next_bfs triangle (FilteringBFS_init [0] (\<lambda>_. True) (\<lambda>_. True)) = Inr bfs' \<and>
      front_unvisited bfs' \<and> m_pending bfs' = [1, 2]) \<and>
   (\<exists>cs bfs'. run_ops triangle (FilteringBFS_init [0] (\<lambda>_. True) (\<lambda>_. True))
        [Next, Next, Next, Next] = Inr (cs, bfs') \<and> distinct cs \<and> cs = [0, 1, 2])"
  using FilteringBFS_current_unvisited[of "[0]" "\<lambda>_. True" "\<lambda>_. True"
      "FilteringBFS_init [0] (\<lambda>_. True) (\<lambda>_. True)" 0 triangle "[Next, Next, Next, Next]"]
    triangle_run
  by (auto simp: valid_def FilteringBFS_init_def triangle_def next_bfs_def twinNode_def theNode_def Let_def)

section \<open>NodeSPQRRotation::mapGraph\<close>






section \<open>The SyncPlan constructor: one cluster\<close>

lemma length_replace_adj [simp]: "length (replace_adj a b xs) = length xs"
  by (simp add: replace_adj_def)

lemma degree_splitEdge_edge:
  "degree (splitEdge_edge G e a b) v =
     degree G v + (if v = a then 1 else 0) + (if v = b then 1 else 0)"
  by (simp add: splitEdge_edge_def degree_def Let_def)

lemma degree_splitEdge:
  "degree (splitEdge G adj pn cn) v =
     degree G v + (if v = pn then 1 else 0) + (if v = cn then 1 else 0)"
  by (simp add: splitEdge_def degree_splitEdge_edge)

lemma nodes_splitEdge [simp]:
  "nodes (splitEdge G adj pn cn) = nodes G" "nodeIdCount (splitEdge G adj pn cn) = nodeIdCount G"
  by (simp_all add: splitEdge_def splitEdge_edge_def Let_def)

lemma fold_splitEdge_nodes [simp]:
  "nodes (fold (\<lambda>adj G'. splitEdge G' (twin adj) pn cn) adjs G) = nodes G"
  "nodeIdCount (fold (\<lambda>adj G'. splitEdge G' (twin adj) pn cn) adjs G) = nodeIdCount G"
  by (induction adjs arbitrary: G) simp_all

lemma degree_fold_splitEdge:
  "degree (fold (\<lambda>adj G'. splitEdge G' (twin adj) pn cn) adjs G) v =
     degree G v + length adjs * ((if v = pn then 1 else 0) + (if v = cn then 1 else 0))"
  by (induction adjs arbitrary: G) (simp_all add: degree_splitEdge)

lemma rerouteNodes_degree:
  "rerouteNodes cg c cn pn ns (count, G) = (count', G') \<Longrightarrow>
   count \<le> count' \<and> nodes G' = nodes G \<and> nodeIdCount G' = nodeIdCount G \<and>
   (\<forall>v. degree G' v =
      degree G v + (count' - count) * ((if v = pn then 1 else 0) + (if v = cn then 1 else 0)))"
proof (induction ns arbitrary: count G)
  case Nil
  then show ?case by simp
next
  case (Cons n ns)
  show ?case
  proof (cases "n = cn")
    case True
    with Cons show ?thesis by simp
  next
    case False
    define adjs where "adjs = filter (is_crossing G cg c) (adjEntries G n)"
    define G1 where "G1 = fold (\<lambda>adj G'. splitEdge G' (twin adj) pn cn) adjs G"
    from Cons.prems False
    have r: "rerouteNodes cg c cn pn ns (count + length adjs, G1) = (count', G')"
      by (simp add: adjs_def G1_def Let_def)
    from Cons.IH[OF r]
    have le: "count + length adjs \<le> count'" and n: "nodes G' = nodes G1" "nodeIdCount G' = nodeIdCount G1"
      and d: "\<And>v. degree G' v =
        degree G1 v + (count' - (count + length adjs)) * ((if v = pn then 1 else 0) + (if v = cn then 1 else 0))"
      by auto
    have d1: "\<And>v. degree G1 v =
        degree G v + length adjs * ((if v = pn then 1 else 0) + (if v = cn then 1 else 0))"
      by (simp add: G1_def degree_fold_splitEdge)
    have "\<And>v. degree G' v =
      degree G v + (count' - count) * ((if v = pn then 1 else 0) + (if v = cn then 1 else 0))"
    proof -
      fix v
      have "(count' - count) = length adjs + (count' - (count + length adjs))" using le by simp
      then show "degree G' v =
        degree G v + (count' - count) * ((if v = pn then 1 else 0) + (if v = cn then 1 else 0))"
        by (simp add: d d1 algebra_simps)
    qed
    then show ?thesis using le n by (simp add: G1_def)
  qed
qed

lemma newNode_simps:
  "fst (newNode G) = nodeIdCount G"
  "nodes (snd (newNode G)) = nodes G @ [nodeIdCount G]"
  "nodeIdCount (snd (newNode G)) = Suc (nodeIdCount G)"
  "degree (snd (newNode G)) v = (if v = nodeIdCount G then 0 else degree G v)"
  by (simp_all add: newNode_def Let_def degree_def)

lemma degree_reverseAdjEdges [simp]: "degree (reverseAdjEdges G v) u = degree G u"
  by (simp add: reverseAdjEdges_def degree_def)

lemma nodes_reverseAdjEdges [simp]:
  "nodes (reverseAdjEdges G v) = nodes G" "nodeIdCount (reverseAdjEdges G v) = nodeIdCount G"
  by (simp_all add: reverseAdjEdges_def)

text \<open>The state one iteration of the first loop produces, and that it meets
  the assertions on the way.\<close>

lemma initCluster_ok:
  assumes p: "parent (cs_cg st) c = Some p"
    and i: "fc_it < length (cs_op st)"
    and x: "fc_index (rev (cs_op st) ! fc_it) = int c"
  shows "\<exists>st'. initCluster c fc_it st = Inr st' \<and>
     nodes (cs_G st') = nodes (cs_G st) @ [nodeIdCount (cs_G st), Suc (nodeIdCount (cs_G st))] \<and>
     nodeIdCount (cs_G st') = Suc (Suc (nodeIdCount (cs_G st))) \<and>
     (\<forall>v. v \<noteq> nodeIdCount (cs_G st) \<longrightarrow> v \<noteq> Suc (nodeIdCount (cs_G st)) \<longrightarrow>
          degree (cs_G st') v = degree (cs_G st) v) \<and>
     degree (cs_G st') (nodeIdCount (cs_G st)) = degree (cs_G st') (Suc (nodeIdCount (cs_G st))) \<and>
     pipes (cs_matchings st') = pipes (cs_matchings st) @ [(nodeIdCount (cs_G st), Suc (nodeIdCount (cs_G st)))] \<and>
     twins (cs_matchings st') = (twins (cs_matchings st))
        (nodeIdCount (cs_G st) \<mapsto> Suc (nodeIdCount (cs_G st)),
         Suc (nodeIdCount (cs_G st)) \<mapsto> nodeIdCount (cs_G st)) \<and>
     cs_cg st' = reassignNode (reassignNode (nodeAdded (nodeAdded (cs_cg st) (nodeIdCount (cs_G st)))
         (Suc (nodeIdCount (cs_G st)))) (nodeIdCount (cs_G st)) c) (Suc (nodeIdCount (cs_G st))) p \<and>
     cs_op st' = (cs_op st)[length (cs_op st) - 1 - fc_it :=
         (rev (cs_op st) ! fc_it)\<lparr>fc_parent_node := int (nodeIdCount (cs_G st))\<rparr>]"
proof -
  define cn where "cn = nodeIdCount (cs_G st)"
  define pn where "pn = Suc cn"
  define G1 where "G1 = snd (newNode (cs_G st))"
  define G2 where "G2 = snd (newNode G1)"
  define cg4 where "cg4 = reassignNode (reassignNode (nodeAdded (nodeAdded (cs_cg st) cn) pn) cn c) pn p"
  define r where "r = rerouteNodes cg4 c cn pn (cnodes cg4 c) (0, G2)"
  define G4 where "G4 = (if fst r = 0 then snd r else reverseAdjEdges (snd r) pn)"
  have n1: "newNode (cs_G st) = (cn, G1)"
    by (simp add: cn_def G1_def newNode_def Let_def)
  have n2: "newNode G1 = (pn, G2)"
    by (simp add: pn_def cn_def G2_def G1_def newNode_def Let_def)
  have rr: "rerouteNodes cg4 c cn pn (cnodes cg4 c) (0, G2) = (fst r, snd r)"
    by (simp add: r_def)
  note rd = rerouteNodes_degree[OF rr]
  have d2: "\<And>v. degree G2 v = (if v = cn \<or> v = pn then 0 else degree (cs_G st) v)"
    by (auto simp: G2_def G1_def newNode_simps cn_def pn_def)
  have n2': "nodes G2 = nodes (cs_G st) @ [cn, pn]" "nodeIdCount G2 = Suc (Suc cn)"
    by (simp_all add: G2_def G1_def newNode_simps cn_def pn_def)
  have d4: "\<And>v. degree G4 v = (if v = cn \<or> v = pn then fst r else degree (cs_G st) v)"
    using rd by (auto simp: G4_def d2 pn_def)
  have n4: "nodes G4 = nodes (cs_G st) @ [cn, pn]" "nodeIdCount G4 = Suc (Suc cn)"
    using rd n2' by (auto simp: G4_def)
  have m: "matchNodes G4 (cs_matchings st) cn pn =
      Inr ((cs_matchings st)\<lparr>pipes := pipes (cs_matchings st) @ [(cn, pn)],
             twins := (twins (cs_matchings st))(cn \<mapsto> pn, pn \<mapsto> cn)\<rparr>)"
    by (simp add: matchNodes_def d4)
  have e0: "initCluster c fc_it st =
     (case matchNodes G4 (cs_matchings st) cn pn of
        Inl e \<Rightarrow> Inl e
      | Inr m \<Rightarrow> Inr \<lparr>cs_G = G4, cs_cg = cg4, cs_matchings = m,
          cs_op = (cs_op st)[length (cs_op st) - 1 - fc_it :=
             (rev (cs_op st) ! fc_it)\<lparr>fc_parent_node := int cn\<rparr>]\<rparr>)"
    unfolding initCluster_def
    using p i x
    by (simp add: Let_def split_def G4_def r_def cg4_def G2_def G1_def pn_def cn_def
        newNode_def cong: sum.case_cong)
  have e: "initCluster c fc_it st =
     Inr \<lparr>cs_G = G4, cs_cg = cg4,
          cs_matchings = (cs_matchings st)\<lparr>pipes := pipes (cs_matchings st) @ [(cn, pn)],
             twins := (twins (cs_matchings st))(cn \<mapsto> pn, pn \<mapsto> cn)\<rparr>,
          cs_op = (cs_op st)[length (cs_op st) - 1 - fc_it :=
             (rev (cs_op st) ! fc_it)\<lparr>fc_parent_node := int cn\<rparr>]\<rparr>"
    unfolding e0 m by simp
  show ?thesis
    unfolding cn_def[symmetric] pn_def[symmetric]
    apply (rule exI, rule conjI, rule e)
    using d4 n4 by (simp add: cg4_def pn_def)
qed

section \<open>The SyncPlan constructor: the loop over the clusters\<close>

lemma cg_static_assignNode [simp]:
  "rootCluster (assignNode cg v c) = rootCluster cg"
  "parent (assignNode cg v c) = parent cg"
  "postOrder (assignNode cg v c) = postOrder cg"
  "clusters (assignNode cg v c) = clusters cg"
  "cAdjEntries (assignNode cg v c) = cAdjEntries cg"
  "adjAvailable (assignNode cg v c) = adjAvailable cg"
  by (simp_all add: assignNode_def)

lemma cg_static_unassignNode [simp]:
  "rootCluster (unassignNode cg v) = rootCluster cg"
  "parent (unassignNode cg v) = parent cg"
  "postOrder (unassignNode cg v) = postOrder cg"
  "clusters (unassignNode cg v) = clusters cg"
  "cAdjEntries (unassignNode cg v) = cAdjEntries cg"
  "adjAvailable (unassignNode cg v) = adjAvailable cg"
  by (simp_all add: unassignNode_def split: option.splits)

lemma cg_static_reassignNode [simp]:
  "rootCluster (reassignNode cg v c) = rootCluster cg"
  "parent (reassignNode cg v c) = parent cg"
  "postOrder (reassignNode cg v c) = postOrder cg"
  "clusters (reassignNode cg v c) = clusters cg"
  "cAdjEntries (reassignNode cg v c) = cAdjEntries cg"
  "adjAvailable (reassignNode cg v c) = adjAvailable cg"
  by (simp_all add: reassignNode_def)

lemma cg_static_nodeAdded [simp]:
  "rootCluster (nodeAdded cg v) = rootCluster cg"
  "parent (nodeAdded cg v) = parent cg"
  "postOrder (nodeAdded cg v) = postOrder cg"
  "clusters (nodeAdded cg v) = clusters cg"
  "cAdjEntries (nodeAdded cg v) = cAdjEntries cg"
  "adjAvailable (nodeAdded cg v) = adjAvailable cg"
  by (simp_all add: nodeAdded_def)

lemma clusterOf_unassignNode: "clusterOf (unassignNode cg v) u = (if u = v then None else clusterOf cg u)"
  by (simp add: unassignNode_def split: option.splits)

lemma clusterOf_assignNode: "clusterOf (assignNode cg v c) u = (if u = v then Some c else clusterOf cg u)"
  by (simp add: assignNode_def)

lemma clusterOf_reassignNode: "clusterOf (reassignNode cg v c) u = (if u = v then Some c else clusterOf cg u)"
  by (simp add: reassignNode_def clusterOf_assignNode clusterOf_unassignNode)

lemma clusterOf_nodeAdded: "clusterOf (nodeAdded cg v) u = (if u = v then Some (rootCluster cg) else clusterOf cg u)"
  by (simp add: nodeAdded_def clusterOf_assignNode)

text \<open>What a successful iteration has done.\<close>

lemma initCluster_InrD:
  assumes "initCluster c fc_it st = Inr st'"
  shows "\<exists>p. parent (cs_cg st) c = Some p \<and> fc_it < length (cs_op st) \<and>
     fc_index (rev (cs_op st) ! fc_it) = int c \<and>
     nodes (cs_G st') = nodes (cs_G st) @ [nodeIdCount (cs_G st), Suc (nodeIdCount (cs_G st))] \<and>
     nodeIdCount (cs_G st') = Suc (Suc (nodeIdCount (cs_G st))) \<and>
     (\<forall>v. v \<noteq> nodeIdCount (cs_G st) \<longrightarrow> v \<noteq> Suc (nodeIdCount (cs_G st)) \<longrightarrow>
          degree (cs_G st') v = degree (cs_G st) v) \<and>
     degree (cs_G st') (nodeIdCount (cs_G st)) = degree (cs_G st') (Suc (nodeIdCount (cs_G st))) \<and>
     pipes (cs_matchings st') = pipes (cs_matchings st) @ [(nodeIdCount (cs_G st), Suc (nodeIdCount (cs_G st)))] \<and>
     twins (cs_matchings st') = (twins (cs_matchings st))
        (nodeIdCount (cs_G st) \<mapsto> Suc (nodeIdCount (cs_G st)),
         Suc (nodeIdCount (cs_G st)) \<mapsto> nodeIdCount (cs_G st)) \<and>
     cs_cg st' = reassignNode (reassignNode (nodeAdded (nodeAdded (cs_cg st) (nodeIdCount (cs_G st)))
         (Suc (nodeIdCount (cs_G st)))) (nodeIdCount (cs_G st)) c) (Suc (nodeIdCount (cs_G st))) p \<and>
     cs_op st' = (cs_op st)[length (cs_op st) - 1 - fc_it :=
         (rev (cs_op st) ! fc_it)\<lparr>fc_parent_node := int (nodeIdCount (cs_G st))\<rparr>]"
proof -
  from assms obtain p where p: "parent (cs_cg st) c = Some p"
    by (cases "parent (cs_cg st) c") (auto simp: initCluster_def)
  from assms p have i: "fc_it < length (cs_op st)"
    by (auto simp: initCluster_def Let_def split_def split: if_splits)
  from assms p i have x: "fc_index (rev (cs_op st) ! fc_it) = int c"
    by (auto simp: initCluster_def Let_def split_def split: if_splits)
  from initCluster_ok[OF p i x] assms p i x show ?thesis by auto
qed

lemma initCluster_cg_static:
  assumes "initCluster c fc_it st = Inr st'"
  shows "rootCluster (cs_cg st') = rootCluster (cs_cg st)" "parent (cs_cg st') = parent (cs_cg st)"
    "postOrder (cs_cg st') = postOrder (cs_cg st)" "clusters (cs_cg st') = clusters (cs_cg st)"
    "cAdjEntries (cs_cg st') = cAdjEntries (cs_cg st)" "adjAvailable (cs_cg st') = adjAvailable (cs_cg st)"
  using initCluster_InrD[OF assms] by auto

lemma rev_fc_update:
  assumes "i < length op"
  shows "rev (op[length op - 1 - i := y]) = (rev op)[i := y]"
proof -
  have "length op - 1 - i < length op" using assms by simp
  then have "rev (op[length op - 1 - i := y]) = (rev op)[length op - (length op - 1 - i) - 1 := y]"
    by (rule rev_update)
  moreover have "length op - (length op - 1 - i) - 1 = i" using assms by simp
  ultimately show ?thesis by simp
qed

lemma initCluster_op:
  assumes "initCluster c fc_it st = Inr st'"
  shows "length (cs_op st') = length (cs_op st)"
    and "rev (cs_op st') = (rev (cs_op st))[fc_it := (rev (cs_op st) ! fc_it)\<lparr>fc_parent_node := int (nodeIdCount (cs_G st))\<rparr>]"
    and "map fc_index (rev (cs_op st')) = map fc_index (rev (cs_op st))"
    and "map fc_nodes (rev (cs_op st')) = map fc_nodes (rev (cs_op st))"
    and "map fc_parent (rev (cs_op st')) = map fc_parent (rev (cs_op st))"
proof -
  from initCluster_InrD[OF assms] have i: "fc_it < length (cs_op st)"
    and e: "cs_op st' = (cs_op st)[length (cs_op st) - 1 - fc_it :=
         (rev (cs_op st) ! fc_it)\<lparr>fc_parent_node := int (nodeIdCount (cs_G st))\<rparr>]"
    by auto
  show "length (cs_op st') = length (cs_op st)" by (simp add: e)
  show r: "rev (cs_op st') = (rev (cs_op st))[fc_it := (rev (cs_op st) ! fc_it)\<lparr>fc_parent_node := int (nodeIdCount (cs_G st))\<rparr>]"
    unfolding e using i by (rule rev_fc_update)
  have i': "fc_it < length (rev (cs_op st))" using i by simp
  show "map fc_index (rev (cs_op st')) = map fc_index (rev (cs_op st))"
    unfolding r using i' by (simp add: map_update list_update_same_conv)
  show "map fc_nodes (rev (cs_op st')) = map fc_nodes (rev (cs_op st))"
    unfolding r using i' by (simp add: map_update list_update_same_conv)
  show "map fc_parent (rev (cs_op st')) = map fc_parent (rev (cs_op st))"
    unfolding r using i' by (simp add: map_update list_update_same_conv)
qed

text \<open>An invariant indexed by the number of iterations done is carried through the loop.\<close>

lemma initClusters_rule:
  assumes "initClusters (cs @ [root]) fc_it st = Inr st'"
    and "rootCluster (cs_cg st) = root" and "root \<notin> set cs"
    and "I 0 st"
    and "\<And>k s s'. k < length cs \<Longrightarrow> I k s \<Longrightarrow> initCluster (cs ! k) (fc_it + k) s = Inr s' \<Longrightarrow> I (Suc k) s'"
  shows "I (length cs) st'"
  using assms
proof (induction cs arbitrary: fc_it st I)
  case Nil
  then show ?case by (auto split: if_splits)
next
  case (Cons c cs)
  from Cons.prems(2,3) have ne: "c \<noteq> rootCluster (cs_cg st)" by auto
  with Cons.prems(1) obtain st1 where s1: "initCluster c fc_it st = Inr st1"
    and r: "initClusters (cs @ [root]) (Suc fc_it) st1 = Inr st'"
    by (auto split: sum.splits)
  have i1: "I (Suc 0) st1" using Cons.prems(5)[of 0 st st1] Cons.prems(4) s1 by simp
  have rt: "rootCluster (cs_cg st1) = root" using initCluster_cg_static(1)[OF s1] Cons.prems(2) by simp
  have "(\<lambda>k. I (Suc k)) (length cs) st'"
  proof (rule Cons.IH[OF r rt])
    show "root \<notin> set cs" using Cons.prems(3) by simp
    show "I (Suc 0) st1" by (rule i1)
    fix k s s'
    assume "k < length cs" "I (Suc k) s" "initCluster (cs ! k) (Suc fc_it + k) s = Inr s'"
    then show "I (Suc (Suc k)) s'" using Cons.prems(5)[of "Suc k" s s'] by simp
  qed
  then show ?case by simp
qed

lemma initClusters_succeeds:
  assumes "rootCluster (cs_cg st) = root" and "root \<notin> set cs"
    and "\<forall>c\<in>set cs. parent (cs_cg st) c \<noteq> None"
    and "map fc_index (rev (cs_op st)) = map int (pre @ cs @ [root])"
    and "length pre = fc_it"
  shows "\<exists>st'. initClusters (cs @ [root]) fc_it st = Inr st'"
  using assms
proof (induction cs arbitrary: fc_it st pre)
  case Nil
  from Nil.prems(4) have l: "length (cs_op st) = Suc (length pre)"
    by (metis length_append_singleton length_map length_rev append_Nil)
  have "map fc_index (rev (cs_op st)) ! fc_it = map int (pre @ [root]) ! fc_it"
    using Nil.prems(4) by simp
  then have "fc_index (rev (cs_op st) ! fc_it) = int root"
    using l Nil.prems(5) by (simp add: nth_append)
  then show ?case using l Nil.prems(1,5) by simp
next
  case (Cons c cs)
  from Cons.prems(3) obtain p where p: "parent (cs_cg st) c = Some p" by auto
  from Cons.prems(4) have l: "length (cs_op st) = length pre + Suc (Suc (length cs))"
    by (metis length_append length_Cons length_map length_rev list.size(3) add_Suc_right add_0_right)
  then have i: "fc_it < length (cs_op st)" using Cons.prems(5) by simp
  have "map fc_index (rev (cs_op st)) ! fc_it = map int (pre @ c # cs @ [root]) ! fc_it"
    using Cons.prems(4) by simp
  then have x: "fc_index (rev (cs_op st) ! fc_it) = int c"
    using i Cons.prems(5) by (simp add: nth_append)
  from initCluster_ok[OF p i x] obtain st1 where s1: "initCluster c fc_it st = Inr st1" by blast
  have "\<exists>st'. initClusters (cs @ [root]) (Suc fc_it) st1 = Inr st'"
  proof (rule Cons.IH[where pre = "pre @ [c]"])
    show "rootCluster (cs_cg st1) = root" using initCluster_cg_static(1)[OF s1] Cons.prems(1) by simp
    show "root \<notin> set cs" using Cons.prems(2) by simp
    show "\<forall>c\<in>set cs. parent (cs_cg st1) c \<noteq> None"
      using initCluster_cg_static(2)[OF s1] Cons.prems(3) by simp
    show "map fc_index (rev (cs_op st1)) = map int ((pre @ [c]) @ cs @ [root])"
      using initCluster_op(3)[OF s1] Cons.prems(4) by simp
    show "length (pre @ [c]) = Suc fc_it" using Cons.prems(5) by simp
  qed
  moreover have "c \<noteq> rootCluster (cs_cg st)" using Cons.prems(1,2) by auto
  ultimately show ?case using s1 by simp
qed

section \<open>Well-formed cluster graphs through the constructor\<close>

lemma fold_Cons_rev: "fold (\<lambda>c acc. f c # acc) xs ys = rev (map f xs) @ ys"
  by (induction xs arbitrary: ys) simp_all

lemma rev_UndoInitCluster_new: "rev (UndoInitCluster_new cg) = map (freeze cg) (postOrder cg)"
  by (simp add: UndoInitCluster_new_def fold_Cons_rev)

lemma fc_index_UndoInitCluster_new:
  "map fc_index (rev (UndoInitCluster_new cg)) = map int (postOrder cg)"
  by (simp add: rev_UndoInitCluster_new freeze_def)

lemma postOrder_okD:
  assumes "postOrder_ok cg"
  shows "postOrder cg = butlast (postOrder cg) @ [rootCluster cg]"
    and "rootCluster cg \<notin> set (butlast (postOrder cg))"
    and "\<forall>c\<in>set (butlast (postOrder cg)). \<exists>p\<in>set (clusters cg). parent cg c = Some p"
    and "rootCluster cg \<in> set (clusters cg)"
    and "set (butlast (postOrder cg)) \<subseteq> set (clusters cg)"
    and "set (clusters cg) = insert (rootCluster cg) (set (butlast (postOrder cg)))"
proof -
  from assms have ne: "postOrder cg \<noteq> []" and l: "last (postOrder cg) = rootCluster cg"
    and d: "distinct (postOrder cg)" and s: "set (postOrder cg) = set (clusters cg)"
    and par: "\<forall>i<length (postOrder cg) - 1.
         \<exists>p\<in>set (drop (Suc i) (postOrder cg)). parent cg (postOrder cg ! i) = Some p"
    by (auto simp: postOrder_ok_def)
  have bl: "butlast (postOrder cg) @ [rootCluster cg] = postOrder cg"
    using append_butlast_last_id[OF ne] l by simp
  show "postOrder cg = butlast (postOrder cg) @ [rootCluster cg]"
    using bl by simp
  have "distinct (butlast (postOrder cg) @ [rootCluster cg])"
    unfolding bl by (rule d)
  then show "rootCluster cg \<notin> set (butlast (postOrder cg))" by simp
  show "\<forall>c\<in>set (butlast (postOrder cg)). \<exists>p\<in>set (clusters cg). parent cg c = Some p"
  proof
    fix c assume "c \<in> set (butlast (postOrder cg))"
    then obtain i where i: "i < length (butlast (postOrder cg))" "butlast (postOrder cg) ! i = c"
      by (auto simp: in_set_conv_nth)
    then have i': "i < length (postOrder cg) - 1" "postOrder cg ! i = c"
      by (simp_all add: nth_butlast)
    from par i' obtain p where "p \<in> set (drop (Suc i) (postOrder cg))" "parent cg c = Some p"
      by auto
    moreover then have "p \<in> set (postOrder cg)" by (meson in_set_dropD)
    ultimately show "\<exists>p\<in>set (clusters cg). parent cg c = Some p" using s by auto
  qed
  have sp: "set (postOrder cg) = insert (rootCluster cg) (set (butlast (postOrder cg)))"
  proof -
    have "set (postOrder cg) = set (butlast (postOrder cg) @ [rootCluster cg])"
      unfolding bl ..
    then show ?thesis by simp
  qed
  show "rootCluster cg \<in> set (clusters cg)"
    using sp s by auto
  show "set (butlast (postOrder cg)) \<subseteq> set (clusters cg)"
    using sp s by auto
  show "set (clusters cg) = insert (rootCluster cg) (set (butlast (postOrder cg)))"
    using sp s by simp
qed

lemma postOrder_parent_later:
  assumes "postOrder_ok cg" and "i < length (postOrder cg) - 1"
  shows "postOrder cg ! i \<noteq> rootCluster cg \<and>
     (\<exists>p\<in>set (drop (Suc i) (postOrder cg)). parent cg (postOrder cg ! i) = Some p)"
proof -
  from assms have "postOrder cg ! i \<in> set (butlast (postOrder cg))"
    by (metis length_butlast nth_butlast nth_mem)
  then have "postOrder cg ! i \<noteq> rootCluster cg" using postOrder_okD(2)[OF assms(1)] by auto
  then show ?thesis using assms by (simp add: postOrder_ok_def)
qed

lemma cnodes_assignNode: "cnodes (assignNode cg v c) d = (if d = c then cnodes cg c @ [v] else cnodes cg d)"
  by (simp add: assignNode_def)

lemma cnodes_unassignNode:
  "cnodes (unassignNode cg v) d =
     (if clusterOf cg v = Some d then remove1 v (cnodes cg d) else cnodes cg d)"
  by (auto simp: unassignNode_def split: option.splits)

lemma cg_consistentI:
  assumes "\<And>c. c \<in> set (clusters cg) \<Longrightarrow> distinct (cnodes cg c)"
    and "\<And>c n. c \<in> set (clusters cg) \<Longrightarrow> n \<in> set (cnodes cg c) \<Longrightarrow> clusterOf cg n = Some c"
    and "\<And>c n. c \<in> set (clusters cg) \<Longrightarrow> n \<in> set (cnodes cg c) \<Longrightarrow> n \<in> set ns"
    and "\<And>n. n \<in> set ns \<Longrightarrow> \<exists>c. c \<in> set (clusters cg) \<and> clusterOf cg n = Some c \<and> n \<in> set (cnodes cg c)"
  shows "cg_consistent ns cg"
  unfolding cg_consistent_def using assms by blast

lemma cg_consistentD:
  assumes "cg_consistent ns cg"
  shows "c \<in> set (clusters cg) \<Longrightarrow> distinct (cnodes cg c)"
    and "c \<in> set (clusters cg) \<Longrightarrow> n \<in> set (cnodes cg c) \<Longrightarrow> clusterOf cg n = Some c"
    and "c \<in> set (clusters cg) \<Longrightarrow> n \<in> set (cnodes cg c) \<Longrightarrow> n \<in> set ns"
    and "n \<in> set ns \<Longrightarrow> \<exists>c. c \<in> set (clusters cg) \<and> clusterOf cg n = Some c \<and> n \<in> set (cnodes cg c)"
  using assms unfolding cg_consistent_def by blast+

lemma cg_consistent_nodeAdded:
  assumes k: "cg_consistent ns cg" and v: "v \<notin> set ns" and r: "rootCluster cg \<in> set (clusters cg)"
  shows "cg_consistent (ns @ [v]) (nodeAdded cg v)"
proof (rule cg_consistentI)
  fix c assume c: "c \<in> set (clusters (nodeAdded cg v))"
  then have c': "c \<in> set (clusters cg)" by simp
  have "v \<notin> set (cnodes cg c)" using cg_consistentD(3)[OF k c'] v by blast
  then show "distinct (cnodes (nodeAdded cg v) c)"
    using cg_consistentD(1)[OF k c'] by (auto simp: nodeAdded_def cnodes_assignNode)
  fix n assume n: "n \<in> set (cnodes (nodeAdded cg v) c)"
  show "clusterOf (nodeAdded cg v) n = Some c"
  proof (cases "n = v")
    case True
    then have "c = rootCluster cg"
      using n \<open>v \<notin> set (cnodes cg c)\<close> by (auto simp: nodeAdded_def cnodes_assignNode split: if_splits)
    then show ?thesis using True by (simp add: clusterOf_nodeAdded)
  next
    case False
    then have "n \<in> set (cnodes cg c)"
      using n by (auto simp: nodeAdded_def cnodes_assignNode split: if_splits)
    then show ?thesis using cg_consistentD(2)[OF k c'] False by (simp add: clusterOf_nodeAdded)
  qed
  show "n \<in> set (ns @ [v])"
  proof (cases "n = v")
    case True then show ?thesis by simp
  next
    case False
    then have "n \<in> set (cnodes cg c)"
      using n by (auto simp: nodeAdded_def cnodes_assignNode split: if_splits)
    then show ?thesis using cg_consistentD(3)[OF k c'] by simp
  qed
next
  fix n assume n: "n \<in> set (ns @ [v])"
  show "\<exists>c. c \<in> set (clusters (nodeAdded cg v)) \<and> clusterOf (nodeAdded cg v) n = Some c \<and>
          n \<in> set (cnodes (nodeAdded cg v) c)"
  proof (cases "n = v")
    case True
    then show ?thesis using r
      by (intro exI[of _ "rootCluster cg"]) (simp add: nodeAdded_def clusterOf_assignNode cnodes_assignNode)
  next
    case False
    then have "n \<in> set ns" using n by simp
    from cg_consistentD(4)[OF k this] obtain c where
      c: "c \<in> set (clusters cg)" "clusterOf cg n = Some c" "n \<in> set (cnodes cg c)" by blast
    then show ?thesis using False
      by (intro exI[of _ c]) (auto simp: nodeAdded_def clusterOf_assignNode cnodes_assignNode)
  qed
qed

lemma cg_consistent_reassignNode:
  assumes k: "cg_consistent ns cg" and v: "v \<in> set ns" and c: "c \<in> set (clusters cg)"
  shows "cg_consistent ns (reassignNode cg v c)"
proof -
  from cg_consistentD(4)[OF k v] obtain old where
    old: "old \<in> set (clusters cg)" "clusterOf cg v = Some old" "v \<in> set (cnodes cg old)" by blast
  have cn: "\<And>d. cnodes (reassignNode cg v c) d =
      (if d = c then (if d = old then remove1 v (cnodes cg d) else cnodes cg d) @ [v]
       else if d = old then remove1 v (cnodes cg d) else cnodes cg d)"
    using old(2) by (simp add: reassignNode_def cnodes_assignNode cnodes_unassignNode)
  have notin: "\<And>d. d \<in> set (clusters cg) \<Longrightarrow> d \<noteq> old \<Longrightarrow> v \<notin> set (cnodes cg d)"
    using cg_consistentD(2)[OF k] old(2) by fastforce
  show ?thesis
  proof (rule cg_consistentI)
    fix d assume "d \<in> set (clusters (reassignNode cg v c))"
    then have d: "d \<in> set (clusters cg)" by simp
    note dd = cg_consistentD(1)[OF k d]
    show "distinct (cnodes (reassignNode cg v c) d)"
      using dd notin[OF d] by (auto simp: cn)
    fix n assume n: "n \<in> set (cnodes (reassignNode cg v c) d)"
    show "clusterOf (reassignNode cg v c) n = Some d"
    proof (cases "n = v")
      case True
      have "d = c"
      proof (rule ccontr)
        assume "d \<noteq> c"
        then have "v \<in> set (if d = old then remove1 v (cnodes cg d) else cnodes cg d)"
          using n True by (simp add: cn)
        then show False using dd notin[OF d] by (auto split: if_splits)
      qed
      then show ?thesis using True by (simp add: clusterOf_reassignNode)
    next
      case False
      then have "n \<in> set (cnodes cg d)"
        using n by (auto simp: cn split: if_splits dest: notin_set_remove1)
      then show ?thesis using cg_consistentD(2)[OF k d] False by (simp add: clusterOf_reassignNode)
    qed
    show "n \<in> set ns"
    proof (cases "n = v")
      case True then show ?thesis using v by simp
    next
      case False
      then have "n \<in> set (cnodes cg d)"
        using n by (auto simp: cn split: if_splits dest: notin_set_remove1)
      then show ?thesis using cg_consistentD(3)[OF k d] by simp
    qed
  next
    fix n assume n: "n \<in> set ns"
    show "\<exists>d. d \<in> set (clusters (reassignNode cg v c)) \<and> clusterOf (reassignNode cg v c) n = Some d \<and>
            n \<in> set (cnodes (reassignNode cg v c) d)"
    proof (cases "n = v")
      case True
      then show ?thesis using c by (intro exI[of _ c]) (simp add: clusterOf_reassignNode cn)
    next
      case False
      from cg_consistentD(4)[OF k n] obtain d where
        d: "d \<in> set (clusters cg)" "clusterOf cg n = Some d" "n \<in> set (cnodes cg d)" by blast
      then show ?thesis using False
        by (intro exI[of _ d]) (auto simp: clusterOf_reassignNode cn)
    qed
  qed
qed

text \<open>The invariant of the first loop: consistency, and fresh node indices.\<close>

lemma initCluster_consistent:
  assumes s: "initCluster c fc_it st = Inr st'"
    and k: "cg_consistent (nodes (cs_G st)) (cs_cg st)"
    and f: "\<forall>n\<in>set (nodes (cs_G st)). n < nodeIdCount (cs_G st)"
    and r: "rootCluster (cs_cg st) \<in> set (clusters (cs_cg st))"
    and c: "c \<in> set (clusters (cs_cg st))"
    and p: "\<forall>q. parent (cs_cg st) c = Some q \<longrightarrow> q \<in> set (clusters (cs_cg st))"
  shows "cg_consistent (nodes (cs_G st')) (cs_cg st') \<and>
         (\<forall>n\<in>set (nodes (cs_G st')). n < nodeIdCount (cs_G st'))"
proof -
  define cn where "cn = nodeIdCount (cs_G st)"
  from initCluster_InrD[OF s] obtain q where q: "parent (cs_cg st) c = Some q"
    and n: "nodes (cs_G st') = nodes (cs_G st) @ [cn, Suc cn]"
    and ni: "nodeIdCount (cs_G st') = Suc (Suc cn)"
    and cg: "cs_cg st' = reassignNode (reassignNode (nodeAdded (nodeAdded (cs_cg st) cn) (Suc cn)) cn c) (Suc cn) q"
    unfolding cn_def by blast
  have q': "q \<in> set (clusters (cs_cg st))" using p q by simp
  have f1: "cn \<notin> set (nodes (cs_G st))" "Suc cn \<notin> set (nodes (cs_G st) @ [cn])"
    using f by (auto simp: cn_def)
  have k1: "cg_consistent (nodes (cs_G st) @ [cn]) (nodeAdded (cs_cg st) cn)"
    by (rule cg_consistent_nodeAdded[OF k f1(1) r])
  have k2: "cg_consistent ((nodes (cs_G st) @ [cn]) @ [Suc cn]) (nodeAdded (nodeAdded (cs_cg st) cn) (Suc cn))"
    by (rule cg_consistent_nodeAdded[OF k1 f1(2)]) (simp add: r)
  have k3: "cg_consistent ((nodes (cs_G st) @ [cn]) @ [Suc cn])
      (reassignNode (nodeAdded (nodeAdded (cs_cg st) cn) (Suc cn)) cn c)"
    by (rule cg_consistent_reassignNode[OF k2]) (simp_all add: c)
  have k4: "cg_consistent ((nodes (cs_G st) @ [cn]) @ [Suc cn])
      (reassignNode (reassignNode (nodeAdded (nodeAdded (cs_cg st) cn) (Suc cn)) cn c) (Suc cn) q)"
    by (rule cg_consistent_reassignNode[OF k3]) (simp_all add: q')
  show ?thesis using k4 f by (auto simp: n ni cg cn_def)
qed

subsection \<open>Flattening\<close>

lemma drainCluster_ok:
  assumes "cg_consistent ns cg" and "c \<in> set (clusters cg)" and "c \<noteq> rootCluster cg"
    and "rootCluster cg \<in> set (clusters cg)"
  shows "\<exists>cg'. drainCluster cg c = Some cg' \<and> cg_consistent ns cg' \<and> cnodes cg' c = [] \<and>
     (\<forall>d. d \<noteq> c \<longrightarrow> d \<noteq> rootCluster cg \<longrightarrow> cnodes cg' d = cnodes cg d) \<and>
     rootCluster cg' = rootCluster cg \<and> parent cg' = parent cg \<and> postOrder cg' = postOrder cg \<and>
     clusters cg' = clusters cg \<and> cAdjEntries cg' = cAdjEntries cg \<and> adjAvailable cg' = adjAvailable cg"
  using assms
proof (induction "length (cnodes cg c)" arbitrary: cg)
  case 0
  then have "cnodes cg c = []" by simp
  then show ?case using "0.prems" by (subst drainCluster.simps) simp
next
  case (Suc k)
  then obtain n rest where nr: "cnodes cg c = n # rest" by (cases "cnodes cg c") auto
  define cg1 where "cg1 = reassignNode cg n (rootCluster cg)"
  from Suc.prems(1,2) nr have cn: "clusterOf cg n = Some c" "n \<in> set ns" "distinct (n # rest)"
    by (auto simp: cg_consistent_def)
  have c1: "cnodes cg1 c = rest"
    using cn nr Suc.prems(3)
    by (simp add: cg1_def reassignNode_def cnodes_assignNode cnodes_unassignNode)
  have k1: "cg_consistent ns cg1"
    unfolding cg1_def by (rule cg_consistent_reassignNode[OF Suc.prems(1) cn(2) Suc.prems(4)])
  have oth: "\<And>d. d \<noteq> c \<Longrightarrow> d \<noteq> rootCluster cg \<Longrightarrow> cnodes cg1 d = cnodes cg d"
    using cn by (simp add: cg1_def reassignNode_def cnodes_assignNode cnodes_unassignNode)
  have st1: "rootCluster cg1 = rootCluster cg" "parent cg1 = parent cg" "postOrder cg1 = postOrder cg"
    "clusters cg1 = clusters cg" "cAdjEntries cg1 = cAdjEntries cg" "adjAvailable cg1 = adjAvailable cg"
    by (simp_all add: cg1_def)
  have len: "k = length (cnodes cg1 c)" using Suc(2) nr c1 by simp
  have "\<exists>cg'. drainCluster cg1 c = Some cg' \<and> cg_consistent ns cg' \<and> cnodes cg' c = [] \<and>
     (\<forall>d. d \<noteq> c \<longrightarrow> d \<noteq> rootCluster cg1 \<longrightarrow> cnodes cg' d = cnodes cg1 d) \<and>
     rootCluster cg' = rootCluster cg1 \<and> parent cg' = parent cg1 \<and> postOrder cg' = postOrder cg1 \<and>
     clusters cg' = clusters cg1 \<and> cAdjEntries cg' = cAdjEntries cg1 \<and> adjAvailable cg' = adjAvailable cg1"
  proof (rule Suc(1)[OF len k1])
    show "c \<in> set (clusters cg1)" using Suc.prems(2) st1 by simp
    show "c \<noteq> rootCluster cg1" using Suc.prems(3) st1 by simp
    show "rootCluster cg1 \<in> set (clusters cg1)" using Suc.prems(4) st1 by simp
  qed
  then obtain cg' where r: "drainCluster cg1 c = Some cg'" "cg_consistent ns cg'" "cnodes cg' c = []"
    "\<forall>d. d \<noteq> c \<longrightarrow> d \<noteq> rootCluster cg1 \<longrightarrow> cnodes cg' d = cnodes cg1 d"
    "rootCluster cg' = rootCluster cg1" "parent cg' = parent cg1" "postOrder cg' = postOrder cg1"
    "clusters cg' = clusters cg1" "cAdjEntries cg' = cAdjEntries cg1" "adjAvailable cg' = adjAvailable cg1"
    by blast
  have "drainCluster cg c = drainCluster cg1 c"
    by (subst drainCluster.simps) (simp add: nr cg1_def)
  then have e: "drainCluster cg c = Some cg'" using r(1) by simp
  have "\<forall>d. d \<noteq> c \<longrightarrow> d \<noteq> rootCluster cg \<longrightarrow> cnodes cg' d = cnodes cg d"
    using r(4) oth st1(1) by simp
  then show ?case using e r(2,3,5-10) st1 by simp
qed

lemma flattenClusters_ok:
  assumes "cg_consistent ns cg" and "set cs \<subseteq> set (clusters cg)" and "rootCluster cg \<notin> set cs"
    and "rootCluster cg \<in> set (clusters cg)"
  shows "\<exists>cg'. flattenClusters (cs @ [rootCluster cg]) cg = Some (Inr cg') \<and> cg_consistent ns cg' \<and>
     (\<forall>c\<in>set cs. cnodes cg' c = []) \<and>
     (\<forall>d. d \<notin> set cs \<longrightarrow> d \<noteq> rootCluster cg \<longrightarrow> cnodes cg' d = cnodes cg d) \<and>
     rootCluster cg' = rootCluster cg \<and> parent cg' = parent cg \<and> postOrder cg' = postOrder cg \<and>
     clusters cg' = clusters cg \<and> cAdjEntries cg' = cAdjEntries cg \<and> adjAvailable cg' = adjAvailable cg"
  using assms
proof (induction cs arbitrary: cg)
  case Nil
  then show ?case by simp
next
  case (Cons c cs)
  from Cons.prems have c: "c \<in> set (clusters cg)" "c \<noteq> rootCluster cg" by auto
  from drainCluster_ok[OF Cons.prems(1) c Cons.prems(4)]
  obtain cg1 where d: "drainCluster cg c = Some cg1" "cg_consistent ns cg1" "cnodes cg1 c = []"
    "\<forall>d. d \<noteq> c \<longrightarrow> d \<noteq> rootCluster cg \<longrightarrow> cnodes cg1 d = cnodes cg d"
    "rootCluster cg1 = rootCluster cg" "parent cg1 = parent cg" "postOrder cg1 = postOrder cg"
    "clusters cg1 = clusters cg" "cAdjEntries cg1 = cAdjEntries cg" "adjAvailable cg1 = adjAvailable cg"
    by blast
  have "\<exists>cg'. flattenClusters (cs @ [rootCluster cg1]) cg1 = Some (Inr cg') \<and> cg_consistent ns cg' \<and>
     (\<forall>c\<in>set cs. cnodes cg' c = []) \<and>
     (\<forall>d. d \<notin> set cs \<longrightarrow> d \<noteq> rootCluster cg1 \<longrightarrow> cnodes cg' d = cnodes cg1 d) \<and>
     rootCluster cg' = rootCluster cg1 \<and> parent cg' = parent cg1 \<and> postOrder cg' = postOrder cg1 \<and>
     clusters cg' = clusters cg1 \<and> cAdjEntries cg' = cAdjEntries cg1 \<and> adjAvailable cg' = adjAvailable cg1"
  proof (rule Cons.IH[OF d(2)])
    show "set cs \<subseteq> set (clusters cg1)" using Cons.prems(2) d(8) by simp
    show "rootCluster cg1 \<notin> set cs" using Cons.prems(3) d(5) by simp
    show "rootCluster cg1 \<in> set (clusters cg1)" using Cons.prems(4) d(5,8) by simp
  qed
  then obtain cg' where f0: "flattenClusters (cs @ [rootCluster cg1]) cg1 = Some (Inr cg')" "cg_consistent ns cg'"
     "\<forall>c\<in>set cs. cnodes cg' c = []"
     "\<forall>d. d \<notin> set cs \<longrightarrow> d \<noteq> rootCluster cg1 \<longrightarrow> cnodes cg' d = cnodes cg1 d"
     "rootCluster cg' = rootCluster cg1" "parent cg' = parent cg1" "postOrder cg' = postOrder cg1"
     "clusters cg' = clusters cg1" "cAdjEntries cg' = cAdjEntries cg1" "adjAvailable cg' = adjAvailable cg1"
    by blast
  have f: "flattenClusters (cs @ [rootCluster cg]) cg1 = Some (Inr cg')" "cg_consistent ns cg'"
     "\<forall>c\<in>set cs. cnodes cg' c = []"
     "\<forall>d. d \<notin> set cs \<longrightarrow> d \<noteq> rootCluster cg \<longrightarrow> cnodes cg' d = cnodes cg1 d"
     "rootCluster cg' = rootCluster cg" "parent cg' = parent cg" "postOrder cg' = postOrder cg"
     "clusters cg' = clusters cg" "cAdjEntries cg' = cAdjEntries cg" "adjAvailable cg' = adjAvailable cg"
    using f0 d(5-10) by simp_all
  have e: "flattenClusters ((c # cs) @ [rootCluster cg]) cg = Some (Inr cg')"
    using c d(1) f(1) by simp
  have "cnodes cg' c = []"
  proof (cases "c \<in> set cs")
    case True
    then show ?thesis using f(3) by simp
  next
    case False
    then show ?thesis using f(4) c d(3) by simp
  qed
  moreover have "\<forall>x\<in>set cs. cnodes cg' x = []" by (rule f(3))
  moreover have "\<forall>x. x \<notin> set (c # cs) \<longrightarrow> x \<noteq> rootCluster cg \<longrightarrow> cnodes cg' x = cnodes cg x"
    using f(4) d(4) by simp
  ultimately show ?case using e f(2,5-10) by simp
qed

section \<open>The SyncPlan constructor as a whole\<close>

lemma ctor_init_simps [simp]:
  "cs_G (ctor_init g cg) = g" "cs_cg (ctor_init g cg) = cg"
  "cs_matchings (ctor_init g cg) = \<lparr>pipes = [], twins = (\<lambda>_. None)\<rparr>"
  "cs_op (ctor_init g cg) = UndoInitCluster_new cg"
  by (simp_all add: ctor_init_def)

lemma initClusters_ctor_succeeds:
  assumes "postOrder_ok cg"
  shows "\<exists>st1. initClusters (postOrder cg) 0 (ctor_init g cg) = Inr st1"
proof -
  note po = postOrder_okD[OF assms]
  have "\<exists>st1. initClusters (butlast (postOrder cg) @ [rootCluster cg]) 0 (ctor_init g cg) = Inr st1"
  proof (rule initClusters_succeeds[where pre = "[]"])
    show "rootCluster (cs_cg (ctor_init g cg)) = rootCluster cg" by simp
    show "rootCluster cg \<notin> set (butlast (postOrder cg))" by (rule po(2))
    show "\<forall>c\<in>set (butlast (postOrder cg)). parent (cs_cg (ctor_init g cg)) c \<noteq> None"
      using po(3) by auto
    show "map fc_index (rev (cs_op (ctor_init g cg))) = map int ([] @ butlast (postOrder cg) @ [rootCluster cg])"
      using po(1) by (simp add: fc_index_UndoInitCluster_new)
    show "length [] = (0::nat)" by simp
  qed
  then show ?thesis using po(1) by simp
qed

text \<open>The cluster tree stays as it is, the assignment stays consistent.\<close>

lemma initClusters_ctor_consistent:
  assumes ok: "ClusterGraph_ok g cg"
    and s: "initClusters (postOrder cg) 0 (ctor_init g cg) = Inr st1"
  shows "cg_consistent (nodes (cs_G st1)) (cs_cg st1) \<and>
     (\<forall>n\<in>set (nodes (cs_G st1)). n < nodeIdCount (cs_G st1)) \<and>
     rootCluster (cs_cg st1) = rootCluster cg \<and> parent (cs_cg st1) = parent cg \<and>
     postOrder (cs_cg st1) = postOrder cg \<and> clusters (cs_cg st1) = clusters cg \<and>
     cAdjEntries (cs_cg st1) = cAdjEntries cg \<and> adjAvailable (cs_cg st1) = adjAvailable cg"
proof -
  from ok have pok: "postOrder_ok cg" and k0: "cg_consistent (nodes g) cg"
    and f0: "\<forall>n\<in>set (nodes g). n < nodeIdCount g"
    by (simp_all add: ClusterGraph_ok_def)
  note po = postOrder_okD[OF pok]
  define I where "I = (\<lambda>(k::nat) (s::ctor_state). cg_consistent (nodes (cs_G s)) (cs_cg s) \<and>
     (\<forall>n\<in>set (nodes (cs_G s)). n < nodeIdCount (cs_G s)) \<and>
     rootCluster (cs_cg s) = rootCluster cg \<and> parent (cs_cg s) = parent cg \<and>
     postOrder (cs_cg s) = postOrder cg \<and> clusters (cs_cg s) = clusters cg \<and>
     cAdjEntries (cs_cg s) = cAdjEntries cg \<and> adjAvailable (cs_cg s) = adjAvailable cg)"
  have s': "initClusters (butlast (postOrder cg) @ [rootCluster cg]) 0 (ctor_init g cg) = Inr st1"
    using s po(1) by simp
  have "I (length (butlast (postOrder cg))) st1"
  proof (rule initClusters_rule[OF s'])
    show "rootCluster (cs_cg (ctor_init g cg)) = rootCluster cg" by simp
    show "rootCluster cg \<notin> set (butlast (postOrder cg))" by (rule po(2))
    show "I 0 (ctor_init g cg)" using k0 f0 by (simp add: I_def)
    fix k s s'
    assume k: "k < length (butlast (postOrder cg))" and i: "I k s"
      and st: "initCluster (butlast (postOrder cg) ! k) (0 + k) s = Inr s'"
    have c: "butlast (postOrder cg) ! k \<in> set (butlast (postOrder cg))" using k by simp
    then have c': "butlast (postOrder cg) ! k \<in> set (clusters (cs_cg s))"
      using po(5) i by (auto simp: I_def)
    have r': "rootCluster (cs_cg s) \<in> set (clusters (cs_cg s))" using po(4) i by (simp add: I_def)
    have p': "\<forall>q. parent (cs_cg s) (butlast (postOrder cg) ! k) = Some q \<longrightarrow> q \<in> set (clusters (cs_cg s))"
      using po(3) c i by (auto simp: I_def)
    from i have k1: "cg_consistent (nodes (cs_G s)) (cs_cg s)"
      and f1: "\<forall>n\<in>set (nodes (cs_G s)). n < nodeIdCount (cs_G s)" by (simp_all add: I_def)
    from initCluster_consistent[OF st k1 f1 r' c' p'] initCluster_cg_static[OF st] i
    show "I (Suc k) s'" by (simp add: I_def)
  qed
  then show ?thesis by (simp add: I_def)
qed

lemma SyncPlan_new_ok:
  assumes ok: "ClusterGraph_ok g cg"
  shows "\<exists>st1 cg'. initClusters (postOrder cg) 0 (ctor_init g cg) = Inr st1 \<and>
     flattenClusters (postOrder cg) (cs_cg st1) = Some (Inr cg') \<and>
     SyncPlan_new g cg aug =
       Some (Inr (\<lparr>sp_G = cs_G st1, matchings = cs_matchings st1,
                   undo_stack = [ResetIndices, UndoInitCluster (cs_op st1)]\<rparr>,
                  cg', (case aug of None \<Rightarrow> None | Some _ \<Rightarrow> Some []))) \<and>
     cg_consistent (nodes (cs_G st1)) cg' \<and>
     (\<forall>c\<in>set (clusters cg). c \<noteq> rootCluster cg \<longrightarrow> cnodes cg' c = []) \<and>
     rootCluster cg' = rootCluster cg \<and> parent cg' = parent cg \<and>
     postOrder cg' = postOrder cg \<and> clusters cg' = clusters cg \<and>
     cAdjEntries cg' = cAdjEntries cg \<and> adjAvailable cg' = adjAvailable cg"
proof -
  from ok have pok: "postOrder_ok cg" by (simp add: ClusterGraph_ok_def)
  note po = postOrder_okD[OF pok]
  from initClusters_ctor_succeeds[OF pok] obtain st1 where
    s: "initClusters (postOrder cg) 0 (ctor_init g cg) = Inr st1" by blast
  note c1 = initClusters_ctor_consistent[OF ok s]
  have "\<exists>cg'. flattenClusters (butlast (postOrder cg) @ [rootCluster (cs_cg st1)]) (cs_cg st1) = Some (Inr cg') \<and>
     cg_consistent (nodes (cs_G st1)) cg' \<and>
     (\<forall>c\<in>set (butlast (postOrder cg)). cnodes cg' c = []) \<and>
     (\<forall>d. d \<notin> set (butlast (postOrder cg)) \<longrightarrow> d \<noteq> rootCluster (cs_cg st1) \<longrightarrow> cnodes cg' d = cnodes (cs_cg st1) d) \<and>
     rootCluster cg' = rootCluster (cs_cg st1) \<and> parent cg' = parent (cs_cg st1) \<and>
     postOrder cg' = postOrder (cs_cg st1) \<and> clusters cg' = clusters (cs_cg st1) \<and>
     cAdjEntries cg' = cAdjEntries (cs_cg st1) \<and> adjAvailable cg' = adjAvailable (cs_cg st1)"
  proof (rule flattenClusters_ok)
    show "cg_consistent (nodes (cs_G st1)) (cs_cg st1)" using c1 by simp
    show "set (butlast (postOrder cg)) \<subseteq> set (clusters (cs_cg st1))" using po(5) c1 by simp
    show "rootCluster (cs_cg st1) \<notin> set (butlast (postOrder cg))" using po(2) c1 by simp
    show "rootCluster (cs_cg st1) \<in> set (clusters (cs_cg st1))" using po(4) c1 by simp
  qed
  then obtain cg' where f: "flattenClusters (butlast (postOrder cg) @ [rootCluster (cs_cg st1)]) (cs_cg st1) = Some (Inr cg')"
     "cg_consistent (nodes (cs_G st1)) cg'"
     "\<forall>c\<in>set (butlast (postOrder cg)). cnodes cg' c = []"
     "rootCluster cg' = rootCluster (cs_cg st1)" "parent cg' = parent (cs_cg st1)"
     "postOrder cg' = postOrder (cs_cg st1)" "clusters cg' = clusters (cs_cg st1)"
     "cAdjEntries cg' = cAdjEntries (cs_cg st1)" "adjAvailable cg' = adjAvailable (cs_cg st1)"
    by blast
  have fl: "flattenClusters (postOrder cg) (cs_cg st1) = Some (Inr cg')"
    using f(1) c1 po(1) by simp
  have sp: "SyncPlan_new g cg aug =
       Some (Inr (\<lparr>sp_G = cs_G st1, matchings = cs_matchings st1,
                   undo_stack = [ResetIndices, UndoInitCluster (cs_op st1)]\<rparr>,
                  cg', (case aug of None \<Rightarrow> None | Some _ \<Rightarrow> Some [])))"
    using s fl c1 by (simp add: SyncPlan_new_def)
  have em: "\<forall>c\<in>set (clusters cg). c \<noteq> rootCluster cg \<longrightarrow> cnodes cg' c = []"
    using f(3) po(6) by auto
  show ?thesis
    apply (rule exI[of _ st1], rule exI[of _ cg'])
    using s fl sp f(2) em f(4-9) c1 by simp
qed

section \<open>The gray nodes and the pipes of the constructor\<close>

lemma upt_double_Suc: "[0..<2 * Suc k] = [0..<2 * k] @ [2 * k, Suc (2 * k)]"
  by simp

lemma clusterOf_initCluster:
  assumes "initCluster c fc_it st = Inr st'"
  shows "clusterOf (cs_cg st') v =
     (if v = Suc (nodeIdCount (cs_G st)) then parent (cs_cg st) c
      else if v = nodeIdCount (cs_G st) then Some c
      else clusterOf (cs_cg st) v)"
  using initCluster_InrD[OF assms]
  by (auto simp: clusterOf_reassignNode clusterOf_nodeAdded)

lemma initClusters_ctor_gray:
  assumes pok: "postOrder_ok cg"
    and s: "initClusters (postOrder cg) 0 (ctor_init g cg) = Inr st1"
  shows "nodeIdCount (cs_G st1) = nodeIdCount g + 2 * (length (postOrder cg) - 1) \<and>
     nodes (cs_G st1) = nodes g @ map (\<lambda>j. nodeIdCount g + j) [0..<2 * (length (postOrder cg) - 1)] \<and>
     pipes (cs_matchings st1) =
       map (\<lambda>i. (nodeIdCount g + 2 * i, Suc (nodeIdCount g + 2 * i))) [0..<length (postOrder cg) - 1] \<and>
     (\<forall>i<length (postOrder cg) - 1.
        clusterOf (cs_cg st1) (nodeIdCount g + 2 * i) = Some (postOrder cg ! i) \<and>
        clusterOf (cs_cg st1) (Suc (nodeIdCount g + 2 * i)) = parent cg (postOrder cg ! i) \<and>
        degree (cs_G st1) (nodeIdCount g + 2 * i) = degree (cs_G st1) (Suc (nodeIdCount g + 2 * i)) \<and>
        twins (cs_matchings st1) (nodeIdCount g + 2 * i) = Some (Suc (nodeIdCount g + 2 * i)) \<and>
        twins (cs_matchings st1) (Suc (nodeIdCount g + 2 * i)) = Some (nodeIdCount g + 2 * i)) \<and>
     (\<forall>v<nodeIdCount g. clusterOf (cs_cg st1) v = clusterOf cg v \<and> degree (cs_G st1) v = degree g v)"
proof -
  note po = postOrder_okD[OF pok]
  define cs where "cs = butlast (postOrder cg)"
  define n0 where "n0 = nodeIdCount g"
  have lcs: "length (postOrder cg) - 1 = length cs" by (simp add: cs_def)
  have nth_cs: "\<And>i. i < length cs \<Longrightarrow> postOrder cg ! i = cs ! i"
    by (simp add: cs_def nth_butlast)
  define I where "I = (\<lambda>(k::nat) (s::ctor_state).
     parent (cs_cg s) = parent cg \<and>
     nodeIdCount (cs_G s) = n0 + 2 * k \<and>
     nodes (cs_G s) = nodes g @ map (\<lambda>j. n0 + j) [0..<2 * k] \<and>
     pipes (cs_matchings s) = map (\<lambda>i. (n0 + 2 * i, Suc (n0 + 2 * i))) [0..<k] \<and>
     (\<forall>i<k. clusterOf (cs_cg s) (n0 + 2 * i) = Some (cs ! i) \<and>
        clusterOf (cs_cg s) (Suc (n0 + 2 * i)) = parent cg (cs ! i) \<and>
        degree (cs_G s) (n0 + 2 * i) = degree (cs_G s) (Suc (n0 + 2 * i)) \<and>
        twins (cs_matchings s) (n0 + 2 * i) = Some (Suc (n0 + 2 * i)) \<and>
        twins (cs_matchings s) (Suc (n0 + 2 * i)) = Some (n0 + 2 * i)) \<and>
     (\<forall>v<n0. clusterOf (cs_cg s) v = clusterOf cg v \<and> degree (cs_G s) v = degree g v))"
  have s': "initClusters (cs @ [rootCluster cg]) 0 (ctor_init g cg) = Inr st1"
    using s po(1) by (simp add: cs_def)
  have "I (length cs) st1"
  proof (rule initClusters_rule[OF s'])
    show "rootCluster (cs_cg (ctor_init g cg)) = rootCluster cg" by simp
    show "rootCluster cg \<notin> set cs" using po(2) by (simp add: cs_def)
    show "I 0 (ctor_init g cg)" by (simp add: I_def n0_def)
    fix k s s'
    assume k: "k < length cs" and i: "I k s"
      and st: "initCluster (cs ! k) (0 + k) s = Inr s'"
    from i have ni: "nodeIdCount (cs_G s) = n0 + 2 * k" and pa: "parent (cs_cg s) = parent cg"
      and nd: "nodes (cs_G s) = nodes g @ map (\<lambda>j. n0 + j) [0..<2 * k]"
      and pi: "pipes (cs_matchings s) = map (\<lambda>i. (n0 + 2 * i, Suc (n0 + 2 * i))) [0..<k]"
      and old: "\<And>i. i < k \<Longrightarrow> clusterOf (cs_cg s) (n0 + 2 * i) = Some (cs ! i) \<and>
        clusterOf (cs_cg s) (Suc (n0 + 2 * i)) = parent cg (cs ! i) \<and>
        degree (cs_G s) (n0 + 2 * i) = degree (cs_G s) (Suc (n0 + 2 * i)) \<and>
        twins (cs_matchings s) (n0 + 2 * i) = Some (Suc (n0 + 2 * i)) \<and>
        twins (cs_matchings s) (Suc (n0 + 2 * i)) = Some (n0 + 2 * i)"
      and low: "\<And>v. v < n0 \<Longrightarrow> clusterOf (cs_cg s) v = clusterOf cg v \<and> degree (cs_G s) v = degree g v"
      by (simp_all add: I_def)
    note co = clusterOf_initCluster[OF st, unfolded ni pa]
    from initCluster_InrD[OF st] have
      n': "nodes (cs_G s') = nodes (cs_G s) @ [n0 + 2 * k, Suc (n0 + 2 * k)]"
      and ni': "nodeIdCount (cs_G s') = Suc (Suc (n0 + 2 * k))"
      and dg: "\<And>v. v \<noteq> n0 + 2 * k \<Longrightarrow> v \<noteq> Suc (n0 + 2 * k) \<Longrightarrow> degree (cs_G s') v = degree (cs_G s) v"
      and dk: "degree (cs_G s') (n0 + 2 * k) = degree (cs_G s') (Suc (n0 + 2 * k))"
      and pi': "pipes (cs_matchings s') = pipes (cs_matchings s) @ [(n0 + 2 * k, Suc (n0 + 2 * k))]"
      and tw: "twins (cs_matchings s') = (twins (cs_matchings s))
        (n0 + 2 * k \<mapsto> Suc (n0 + 2 * k), Suc (n0 + 2 * k) \<mapsto> n0 + 2 * k)"
      unfolding ni by auto
    have a1: "parent (cs_cg s') = parent cg" using initCluster_cg_static(2)[OF st] pa by simp
    have a2: "nodeIdCount (cs_G s') = n0 + 2 * Suc k" using ni' by simp
    have a3: "nodes (cs_G s') = nodes g @ map (\<lambda>j. n0 + j) [0..<2 * Suc k]"
      unfolding n' nd upt_double_Suc by simp
    have a4: "pipes (cs_matchings s') = map (\<lambda>i. (n0 + 2 * i, Suc (n0 + 2 * i))) [0..<Suc k]"
      unfolding pi' pi by simp
    have a5: "\<forall>i<Suc k. clusterOf (cs_cg s') (n0 + 2 * i) = Some (cs ! i) \<and>
        clusterOf (cs_cg s') (Suc (n0 + 2 * i)) = parent cg (cs ! i) \<and>
        degree (cs_G s') (n0 + 2 * i) = degree (cs_G s') (Suc (n0 + 2 * i)) \<and>
        twins (cs_matchings s') (n0 + 2 * i) = Some (Suc (n0 + 2 * i)) \<and>
        twins (cs_matchings s') (Suc (n0 + 2 * i)) = Some (n0 + 2 * i)"
    proof (intro allI impI)
      fix i assume "i < Suc k"
      then consider "i < k" | "i = k" by linarith
      then show "clusterOf (cs_cg s') (n0 + 2 * i) = Some (cs ! i) \<and>
        clusterOf (cs_cg s') (Suc (n0 + 2 * i)) = parent cg (cs ! i) \<and>
        degree (cs_G s') (n0 + 2 * i) = degree (cs_G s') (Suc (n0 + 2 * i)) \<and>
        twins (cs_matchings s') (n0 + 2 * i) = Some (Suc (n0 + 2 * i)) \<and>
        twins (cs_matchings s') (Suc (n0 + 2 * i)) = Some (n0 + 2 * i)"
      proof cases
        case 1
        then have ne: "n0 + 2 * i \<noteq> n0 + 2 * k" "n0 + 2 * i \<noteq> Suc (n0 + 2 * k)"
          "Suc (n0 + 2 * i) \<noteq> n0 + 2 * k" "Suc (n0 + 2 * i) \<noteq> Suc (n0 + 2 * k)"
          by presburger+
        show ?thesis using old[OF 1] ne dg[OF ne(1,2)] dg[OF ne(3,4)]
          by (simp add: co tw)
      next
        case 2
        then show ?thesis using dk by (simp add: co tw)
      qed
    qed
    have a6: "\<forall>v<n0. clusterOf (cs_cg s') v = clusterOf cg v \<and> degree (cs_G s') v = degree g v"
    proof (intro allI impI)
      fix v assume v: "v < n0"
      then have ne: "v \<noteq> n0 + 2 * k" "v \<noteq> Suc (n0 + 2 * k)" by simp_all
      show "clusterOf (cs_cg s') v = clusterOf cg v \<and> degree (cs_G s') v = degree g v"
        using low[OF v] ne dg[OF ne] by (simp add: co)
    qed
    show "I (Suc k) s'"
      unfolding I_def using a1 a2 a3 a4 a5 a6 by blast
  qed
  then show ?thesis
    unfolding I_def lcs n0_def[symmetric] using nth_cs by simp
qed

section \<open>Properties of the constructor\<close>

lemma upt_0_2: "[0..<2] = [0, Suc 0]"
  by (simp add: numeral_2_eq_2)

lemma postOrder_ok_tri: "postOrder_ok cg_tri"
  by (auto simp: postOrder_ok_def cg_tri_def)

lemma ClusterGraph_ok_tri: "ClusterGraph_ok triangle cg_tri"
  using postOrder_ok_tri
  by (simp add: ClusterGraph_ok_def cg_consistent_def cg_tri_def triangle_def)

text \<open>
  C5. When the constructor returns, the node list of every cluster but the root is
  empty, and every node of the graph, the nodes of the input graph and the gray nodes
  alike, is assigned to the root cluster and stands in its node list.
\<close>

theorem SyncPlan_new_flattens:
  assumes "ClusterGraph_ok g cg"
  shows "\<exists>SP cg' aug'.
     SyncPlan_new g cg aug = Some (Inr (SP, cg', aug')) \<and>
     clusters cg' = clusters cg \<and> rootCluster cg' = rootCluster cg \<and>
     nodes (sp_G SP) = nodes g @ map (\<lambda>j. nodeIdCount g + j) [0..<2 * (length (postOrder cg) - 1)] \<and>
     (\<forall>c\<in>set (clusters cg'). c \<noteq> rootCluster cg' \<longrightarrow> cnodes cg' c = []) \<and>
     (\<forall>n\<in>set (nodes (sp_G SP)).
        clusterOf cg' n = Some (rootCluster cg') \<and> n \<in> set (cnodes cg' (rootCluster cg')))"
proof -
  from assms have pok: "postOrder_ok cg" by (simp add: ClusterGraph_ok_def)
  from SyncPlan_new_ok[OF assms, of aug] obtain st1 cg' where
    s: "initClusters (postOrder cg) 0 (ctor_init g cg) = Inr st1"
    and sp: "SyncPlan_new g cg aug =
       Some (Inr (\<lparr>sp_G = cs_G st1, matchings = cs_matchings st1,
                   undo_stack = [ResetIndices, UndoInitCluster (cs_op st1)]\<rparr>,
                  cg', (case aug of None \<Rightarrow> None | Some _ \<Rightarrow> Some [])))"
    and k: "cg_consistent (nodes (cs_G st1)) cg'"
    and e: "\<forall>c\<in>set (clusters cg). c \<noteq> rootCluster cg \<longrightarrow> cnodes cg' c = []"
    and st: "rootCluster cg' = rootCluster cg" "clusters cg' = clusters cg"
    by blast
  note gr = initClusters_ctor_gray[OF pok s]
  have all: "\<forall>n\<in>set (nodes (cs_G st1)).
        clusterOf cg' n = Some (rootCluster cg') \<and> n \<in> set (cnodes cg' (rootCluster cg'))"
  proof
    fix n assume "n \<in> set (nodes (cs_G st1))"
    from cg_consistentD(4)[OF k this] obtain c where
      c: "c \<in> set (clusters cg')" "clusterOf cg' n = Some c" "n \<in> set (cnodes cg' c)" by blast
    have "c = rootCluster cg'"
    proof (rule ccontr)
      assume "c \<noteq> rootCluster cg'"
      then have "cnodes cg' c = []" using e c(1) st by simp
      then show False using c(3) by simp
    qed
    then show "clusterOf cg' n = Some (rootCluster cg') \<and> n \<in> set (cnodes cg' (rootCluster cg'))"
      using c by simp
  qed
  show ?thesis
    apply (rule exI[of _ "\<lparr>sp_G = cs_G st1, matchings = cs_matchings st1,
                   undo_stack = [ResetIndices, UndoInitCluster (cs_op st1)]\<rparr>"])
    apply (rule exI[of _ cg'])
    apply (rule exI[of _ "case aug of None \<Rightarrow> None | Some _ \<Rightarrow> Some []"])
    using sp st e all gr by simp
qed

theorem SyncPlan_new_flattens_witness:
  "ClusterGraph_ok triangle cg_tri \<and>
   (\<exists>SP cg' aug'. SyncPlan_new triangle cg_tri None = Some (Inr (SP, cg', aug')) \<and>
      cnodes cg' 1 = [] \<and> clusterOf cg' 0 = Some 0 \<and> clusterOf cg' 3 = Some 0 \<and>
      clusterOf cg' 4 = Some 0 \<and> nodes (sp_G SP) = [0, 1, 2, 3, 4])"
proof -
  from SyncPlan_new_flattens[OF ClusterGraph_ok_tri, of None]
  obtain SP cg' aug' where
    a: "SyncPlan_new triangle cg_tri None = Some (Inr (SP, cg', aug'))"
    and c: "clusters cg' = clusters cg_tri" "rootCluster cg' = rootCluster cg_tri"
    and n: "nodes (sp_G SP) = nodes triangle @
         map (\<lambda>j. nodeIdCount triangle + j) [0..<2 * (length (postOrder cg_tri) - 1)]"
    and e: "\<forall>c\<in>set (clusters cg'). c \<noteq> rootCluster cg' \<longrightarrow> cnodes cg' c = []"
    and r: "\<forall>n\<in>set (nodes (sp_G SP)).
        clusterOf cg' n = Some (rootCluster cg') \<and> n \<in> set (cnodes cg' (rootCluster cg'))"
    by blast
  have n': "nodes (sp_G SP) = [0, 1, 2, 3, 4]" using n by (simp add: triangle_def cg_tri_def upt_0_2)
  have "cnodes cg' 1 = []" using e c by (simp add: cg_tri_def)
  moreover have "clusterOf cg' 0 = Some 0" "clusterOf cg' 3 = Some 0" "clusterOf cg' 4 = Some 0"
    using r c n' by (simp_all add: cg_tri_def)
  ultimately show ?thesis using a n' ClusterGraph_ok_tri by blast
qed

section \<open>The operations of the undo\<close>

lemma nodeFromIndex_int: "n \<in> set (nodes G) \<Longrightarrow> nodeFromIndex G (int n) = Some n"
  by (simp add: nodeFromIndex_def)

lemma reassignNodes_ok:
  assumes "set ns \<subseteq> set (nodes G)"
  shows "\<exists>cg'. reassignNodes G cg c (map int ns) = Inr cg' \<and>
     rootCluster cg' = rootCluster cg \<and> clusters cg' = clusters cg \<and> parent cg' = parent cg \<and>
     (\<forall>v. clusterOf cg' v = (if v \<in> set ns then Some c else clusterOf cg v))"
  using assms
proof (induction ns arbitrary: cg)
  case Nil
  then show ?case by simp
next
  case (Cons n ns)
  then have n: "nodeFromIndex G (int n) = Some n" and ns: "set ns \<subseteq> set (nodes G)"
    by (simp_all add: nodeFromIndex_int)
  from Cons.IH[OF ns, of "reassignNode cg n c"] obtain cg' where
    r: "reassignNodes G (reassignNode cg n c) c (map int ns) = Inr cg'"
       "rootCluster cg' = rootCluster cg" "clusters cg' = clusters cg" "parent cg' = parent cg"
       "\<forall>v. clusterOf cg' v = (if v \<in> set ns then Some c else clusterOf (reassignNode cg n c) v)"
    by auto
  have "\<forall>v. clusterOf cg' v = (if v \<in> set (n # ns) then Some c else clusterOf cg v)"
    using r(5) by (simp add: clusterOf_reassignNode)
  then show ?case using r(1-4) n by simp
qed

lemma joinEdge_other:
  "nodes (joinEdge G a b u v) = nodes G"
  "w \<noteq> u \<Longrightarrow> w \<noteq> v \<Longrightarrow> degree (joinEdge G a b u v) w = degree G w"
  by (simp_all add: joinEdge_def Let_def degree_def)

lemma fold_joinEdge_other:
  "nodes (fold (\<lambda>pair G'. joinEdge G' (fst pair) (snd pair) u v) ps G) = nodes G"
  "w \<noteq> u \<Longrightarrow> w \<noteq> v \<Longrightarrow>
     degree (fold (\<lambda>pair G'. joinEdge G' (fst pair) (snd pair) u v) ps G) w = degree G w"
  by (induction ps arbitrary: G) (simp_all add: joinEdge_other)

lemma join_other:
  "nodes (join G u v ps) = remove1 v (remove1 u (nodes G))"
  "w \<noteq> u \<Longrightarrow> w \<noteq> v \<Longrightarrow> degree (join G u v ps) w = degree G w"
proof -
  show "nodes (join G u v ps) = remove1 v (remove1 u (nodes G))"
    by (simp add: join_def delNode_def fold_joinEdge_other)
  assume "w \<noteq> u" "w \<noteq> v"
  then show "degree (join G u v ps) w = degree G w"
    using fold_joinEdge_other(2)[of w u v ps G]
    by (simp add: join_def delNode_def degree_def)
qed

lemma boundaryLoop_cg:
  "clusterOf (fst (boundaryLoop bc c ps b p (cg, aug))) = clusterOf cg \<and>
   cnodes (fst (boundaryLoop bc c ps b p (cg, aug))) = cnodes cg \<and>
   rootCluster (fst (boundaryLoop bc c ps b p (cg, aug))) = rootCluster cg \<and>
   clusters (fst (boundaryLoop bc c ps b p (cg, aug))) = clusters cg \<and>
   parent (fst (boundaryLoop bc c ps b p (cg, aug))) = parent cg \<and>
   (aug = None \<longrightarrow> snd (boundaryLoop bc c ps b p (cg, aug)) = None)"
proof (induction ps arbitrary: b p cg aug)
  case Nil
  then show ?case by simp
next
  case (Cons pair ps)
  show ?case
  proof (cases aug)
    case None
    then show ?thesis using Cons.IH[of b "Some (twin (fst pair))" _ None] by (simp add: Let_def)
  next
    case (Some qs)
    then show ?thesis
      using Cons.IH[of "bc (theEdge (fst pair))" "Some (twin (fst pair))" _ "Some (qs @ [(p, Some (twin (fst pair)))])"]
        Cons.IH[of b "Some (twin (fst pair))" _ "Some qs"]
      by (simp add: Let_def)
  qed
qed

lemma clusterOf_nodeDeleted: "clusterOf (nodeDeleted cg v) u = (if u = v then None else clusterOf cg u)"
  by (simp add: nodeDeleted_def clusterOf_unassignNode)

lemma cg_static_nodeDeleted [simp]:
  "rootCluster (nodeDeleted cg v) = rootCluster cg"
  "parent (nodeDeleted cg v) = parent cg"
  "clusters (nodeDeleted cg v) = clusters cg"
  by (simp_all add: nodeDeleted_def)

text \<open>\<open>processCluster\<close> on a pipe that is registered, with both nodes in the graph
  and of the same degree: it fails exactly when an augmentation vector was given and
  the pipe has no edges.\<close>

lemma processCluster_pipe:
  assumes n: "n \<in> set (nodes (us_G pq))"
    and t: "twins (us_matchings pq) n = Some t" "twins (us_matchings pq) t = Some n"
    and d: "degree (us_G pq) n = degree (us_G pq) t"
  shows "(us_augmentation pq \<noteq> None \<and> degree (us_G pq) n = 0 \<and>
            processCluster bc pq c (int n) = Inl NullPointer) \<or>
         (\<not> (us_augmentation pq \<noteq> None \<and> degree (us_G pq) n = 0) \<and>
          (\<exists>pq'. processCluster bc pq c (int n) = Inr pq' \<and>
            nodes (us_G pq') = remove1 n (remove1 t (nodes (us_G pq))) \<and>
            (\<forall>w. w \<noteq> n \<longrightarrow> w \<noteq> t \<longrightarrow> degree (us_G pq') w = degree (us_G pq) w) \<and>
            twins (us_matchings pq') = (twins (us_matchings pq))(n := None, t := None) \<and>
            pipes (us_matchings pq') = filter (\<lambda>p. p \<noteq> (n, t) \<and> p \<noteq> (t, n)) (pipes (us_matchings pq)) \<and>
            (\<forall>w. clusterOf (us_cg pq') w = (if w = n \<or> w = t then None else clusterOf (us_cg pq) w)) \<and>
            rootCluster (us_cg pq') = rootCluster (us_cg pq) \<and>
            clusters (us_cg pq') = clusters (us_cg pq) \<and>
            parent (us_cg pq') = parent (us_cg pq) \<and>
            (us_augmentation pq = None \<longrightarrow> us_augmentation pq' = None)))"
proof -
  define pbij where "pbij = zip (adjEntries (us_G pq) t) (rev (adjEntries (us_G pq) n))"
  have nf: "nodeFromIndex (us_G pq) (int n) = Some n" using n by (rule nodeFromIndex_int)
  have gb: "getIncidentEdgeBijection (us_G pq) (us_matchings pq) t = Inr pbij"
    using t d by (simp add: getIncidentEdgeBijection_def getTwin_def pbij_def)
  have empty: "pbij = [] \<longleftrightarrow> degree (us_G pq) n = 0"
    using d by (auto simp: pbij_def degree_def zip_eq_Nil_iff)
  define cg' where "cg' = nodeDeleted (nodeDeleted (us_cg pq) t) n"
  define bc_nr where "bc_nr = (if us_augmentation pq \<noteq> None then bc (theEdge (fst (hd pbij))) else - 1)"
  define res where "res = boundaryLoop bc c pbij bc_nr None (cg', us_augmentation pq)"
  define pq' where "pq' = \<lparr>us_G = join (us_G pq) t n pbij,
      us_matchings = removeMatching (us_matchings pq) n t, us_cg = fst res, us_augmentation = snd res\<rparr>"
  have e: "processCluster bc pq c (int n) =
      (if us_augmentation pq \<noteq> None \<and> pbij = [] then Inl NullPointer else Inr pq')"
    by (simp add: processCluster_def nf t getTwin_def gb Let_def split_def
        pq'_def res_def bc_nr_def cg'_def)
  note bl = boundaryLoop_cg[of bc c pbij bc_nr None cg' "us_augmentation pq", folded res_def]
  show ?thesis
  proof (cases "us_augmentation pq \<noteq> None \<and> degree (us_G pq) n = 0")
    case True
    then show ?thesis using e empty by simp
  next
    case False
    then have r: "processCluster bc pq c (int n) = Inr pq'" using e empty by auto
    have "nodes (us_G pq') = remove1 n (remove1 t (nodes (us_G pq)))"
      by (simp add: pq'_def join_other)
    moreover have "\<forall>w. w \<noteq> n \<longrightarrow> w \<noteq> t \<longrightarrow> degree (us_G pq') w = degree (us_G pq) w"
      by (simp add: pq'_def join_other)
    moreover have "twins (us_matchings pq') = (twins (us_matchings pq))(n := None, t := None)"
      "pipes (us_matchings pq') = filter (\<lambda>p. p \<noteq> (n, t) \<and> p \<noteq> (t, n)) (pipes (us_matchings pq))"
      by (simp_all add: pq'_def removeMatching_def)
    moreover have "\<forall>w. clusterOf (us_cg pq') w = (if w = n \<or> w = t then None else clusterOf (us_cg pq) w)"
      using bl by (auto simp: pq'_def cg'_def clusterOf_nodeDeleted)
    moreover have "rootCluster (us_cg pq') = rootCluster (us_cg pq)"
      "clusters (us_cg pq') = clusters (us_cg pq)" "parent (us_cg pq') = parent (us_cg pq)"
      using bl by (simp_all add: pq'_def cg'_def)
    moreover have "us_augmentation pq = None \<longrightarrow> us_augmentation pq' = None"
      using bl by (simp add: pq'_def)
    ultimately have "\<exists>pq'. processCluster bc pq c (int n) = Inr pq' \<and>
            nodes (us_G pq') = remove1 n (remove1 t (nodes (us_G pq))) \<and>
            (\<forall>w. w \<noteq> n \<longrightarrow> w \<noteq> t \<longrightarrow> degree (us_G pq') w = degree (us_G pq) w) \<and>
            twins (us_matchings pq') = (twins (us_matchings pq))(n := None, t := None) \<and>
            pipes (us_matchings pq') = filter (\<lambda>p. p \<noteq> (n, t) \<and> p \<noteq> (t, n)) (pipes (us_matchings pq)) \<and>
            (\<forall>w. clusterOf (us_cg pq') w = (if w = n \<or> w = t then None else clusterOf (us_cg pq) w)) \<and>
            rootCluster (us_cg pq') = rootCluster (us_cg pq) \<and>
            clusters (us_cg pq') = clusters (us_cg pq) \<and>
            parent (us_cg pq') = parent (us_cg pq) \<and>
            (us_augmentation pq = None \<longrightarrow> us_augmentation pq' = None)"
      using r by (intro exI[of _ pq']) simp
    then show ?thesis using False by (intro disjI2 conjI)
  qed
qed

lemma processCluster_pipe_fails:
  assumes "n \<in> set (nodes (us_G pq))"
    and "twins (us_matchings pq) n = Some t" "twins (us_matchings pq) t = Some n"
    and "degree (us_G pq) n = degree (us_G pq) t"
    and "us_augmentation pq \<noteq> None \<and> degree (us_G pq) n = 0"
  shows "processCluster bc pq c (int n) = Inl NullPointer"
  using processCluster_pipe[OF assms(1-4), of bc c] assms(5) by fastforce

lemma processCluster_pipe_returns:
  assumes "n \<in> set (nodes (us_G pq))"
    and "twins (us_matchings pq) n = Some t" "twins (us_matchings pq) t = Some n"
    and "degree (us_G pq) n = degree (us_G pq) t"
    and "\<not> (us_augmentation pq \<noteq> None \<and> degree (us_G pq) n = 0)"
  obtains pq' where "processCluster bc pq c (int n) = Inr pq'"
    "nodes (us_G pq') = remove1 n (remove1 t (nodes (us_G pq)))"
    "\<forall>w. w \<noteq> n \<longrightarrow> w \<noteq> t \<longrightarrow> degree (us_G pq') w = degree (us_G pq) w"
    "twins (us_matchings pq') = (twins (us_matchings pq))(n := None, t := None)"
    "\<forall>w. clusterOf (us_cg pq') w = (if w = n \<or> w = t then None else clusterOf (us_cg pq) w)"
    "rootCluster (us_cg pq') = rootCluster (us_cg pq)"
    "clusters (us_cg pq') = clusters (us_cg pq)"
    "us_augmentation pq = None \<longrightarrow> us_augmentation pq' = None"
proof -
  from processCluster_pipe[OF assms(1-4), of bc c] assms(5)
  have "\<exists>pq'. processCluster bc pq c (int n) = Inr pq' \<and>
            nodes (us_G pq') = remove1 n (remove1 t (nodes (us_G pq))) \<and>
            (\<forall>w. w \<noteq> n \<longrightarrow> w \<noteq> t \<longrightarrow> degree (us_G pq') w = degree (us_G pq) w) \<and>
            twins (us_matchings pq') = (twins (us_matchings pq))(n := None, t := None) \<and>
            pipes (us_matchings pq') = filter (\<lambda>p. p \<noteq> (n, t) \<and> p \<noteq> (t, n)) (pipes (us_matchings pq)) \<and>
            (\<forall>w. clusterOf (us_cg pq') w = (if w = n \<or> w = t then None else clusterOf (us_cg pq) w)) \<and>
            rootCluster (us_cg pq') = rootCluster (us_cg pq) \<and>
            clusters (us_cg pq') = clusters (us_cg pq) \<and>
            parent (us_cg pq') = parent (us_cg pq) \<and>
            (us_augmentation pq = None \<longrightarrow> us_augmentation pq' = None)"
    by (elim disjE) simp_all
  then obtain pq' where "processCluster bc pq c (int n) = Inr pq'"
    "nodes (us_G pq') = remove1 n (remove1 t (nodes (us_G pq)))"
    "\<forall>w. w \<noteq> n \<longrightarrow> w \<noteq> t \<longrightarrow> degree (us_G pq') w = degree (us_G pq) w"
    "twins (us_matchings pq') = (twins (us_matchings pq))(n := None, t := None)"
    "\<forall>w. clusterOf (us_cg pq') w = (if w = n \<or> w = t then None else clusterOf (us_cg pq) w)"
    "rootCluster (us_cg pq') = rootCluster (us_cg pq)"
    "clusters (us_cg pq') = clusters (us_cg pq)"
    "us_augmentation pq = None \<longrightarrow> us_augmentation pq' = None"
    by (elim exE conjE)
  then show thesis by (rule that)
qed

lemma boundaryLoop_aug:
  "aug \<noteq> None \<Longrightarrow> snd (boundaryLoop bc c ps b p (cg, aug)) \<noteq> None"
proof (induction ps arbitrary: b p cg aug)
  case Nil
  then show ?case by simp
next
  case (Cons pair ps)
  then obtain xs where a: "aug = Some xs" by auto
  show ?case using Cons.IH by (simp add: Let_def a)
qed

lemma processCluster_aug:
  assumes "processCluster bc pq c i = Inr pq'" and "us_augmentation pq \<noteq> None"
  shows "us_augmentation pq' \<noteq> None"
  using assms boundaryLoop_aug unfolding processCluster_def
  by (auto simp: Let_def split_def split: option.splits sum.splits if_splits)

section \<open>Undoing the constructor\<close>

text \<open>The frozen clusters the constructor leaves: the root first, then the other
  clusters against the post-order, each with the index of its node \<open>cn\<close>.\<close>

lemma initClusters_ctor_op:
  assumes pok: "postOrder_ok cg"
    and s: "initClusters (postOrder cg) 0 (ctor_init g cg) = Inr st1"
  shows "cs_op st1 = freeze cg (rootCluster cg) #
     rev (map (\<lambda>i. (freeze cg (postOrder cg ! i))\<lparr>fc_parent_node := int (nodeIdCount g + 2 * i)\<rparr>)
            [0..<length (postOrder cg) - 1])"
proof -
  note po = postOrder_okD[OF pok]
  define cs where "cs = butlast (postOrder cg)"
  define n0 where "n0 = nodeIdCount g"
  define fz where "fz = (\<lambda>i. (freeze cg (postOrder cg ! i))\<lparr>fc_parent_node := int (n0 + 2 * i)\<rparr>)"
  have lcs: "length (postOrder cg) - 1 = length cs" by (simp add: cs_def)
  have lpo: "length (postOrder cg) = Suc (length cs)"
    using po(1) by (metis cs_def length_append_singleton)
  define I where "I = (\<lambda>(j::nat) (s::ctor_state).
     nodeIdCount (cs_G s) = n0 + 2 * j \<and>
     rev (cs_op s) = map fz [0..<j] @ map (freeze cg) (drop j (postOrder cg)))"
  have s': "initClusters (cs @ [rootCluster cg]) 0 (ctor_init g cg) = Inr st1"
    using s po(1) by (simp add: cs_def)
  have "I (length cs) st1"
  proof (rule initClusters_rule[OF s'])
    show "rootCluster (cs_cg (ctor_init g cg)) = rootCluster cg" by simp
    show "rootCluster cg \<notin> set cs" using po(2) by (simp add: cs_def)
    show "I 0 (ctor_init g cg)" by (simp add: I_def n0_def rev_UndoInitCluster_new)
    fix j s s'
    assume j: "j < length cs" and i: "I j s"
      and st: "initCluster (cs ! j) (0 + j) s = Inr s'"
    from i have ni: "nodeIdCount (cs_G s) = n0 + 2 * j"
      and ro: "rev (cs_op s) = map fz [0..<j] @ map (freeze cg) (drop j (postOrder cg))"
      by (simp_all add: I_def)
    have jl: "j < length (postOrder cg)" using j lpo by simp
    have dr: "drop j (postOrder cg) = postOrder cg ! j # drop (Suc j) (postOrder cg)"
      using jl by (simp add: Cons_nth_drop_Suc)
    have ro': "rev (cs_op s) = map fz [0..<j] @ freeze cg (postOrder cg ! j) #
        map (freeze cg) (drop (Suc j) (postOrder cg))"
      unfolding ro dr by simp
    have nthj: "rev (cs_op s) ! j = freeze cg (postOrder cg ! j)"
      unfolding ro' by (simp add: nth_append)
    from initCluster_op(2)[OF st] have
      "rev (cs_op s') = (rev (cs_op s))[j := (rev (cs_op s) ! j)\<lparr>fc_parent_node := int (n0 + 2 * j)\<rparr>]"
      by (simp add: ni)
    then have "rev (cs_op s') = map fz [0..<j] @ fz j # map (freeze cg) (drop (Suc j) (postOrder cg))"
      unfolding nthj unfolding ro' by (simp add: list_update_append fz_def)
    then have a: "rev (cs_op s') = map fz [0..<Suc j] @ map (freeze cg) (drop (Suc j) (postOrder cg))"
      by simp
    from initCluster_InrD[OF st] have "nodeIdCount (cs_G s') = n0 + 2 * Suc j"
      by (auto simp: ni)
    then show "I (Suc j) s'" using a by (simp add: I_def)
  qed
  then have r: "rev (cs_op st1) = map fz [0..<length cs] @ map (freeze cg) (drop (length cs) (postOrder cg))"
    by (simp add: I_def)
  have "drop (length cs) (postOrder cg) = [rootCluster cg]"
    using po(1) by (metis cs_def append_eq_conv_conj)
  then have "rev (cs_op st1) = map fz [0..<length cs] @ [freeze cg (rootCluster cg)]"
    using r by simp
  then have "rev (rev (cs_op st1)) = freeze cg (rootCluster cg) # rev (map fz [0..<length cs])"
    by (simp only: rev_append rev.simps append_Nil append_Cons)
  then show ?thesis unfolding fz_def n0_def lcs by simp
qed

lemma remove_gray_pair:
  assumes "\<forall>n\<in>set ns. n < n0"
  shows "remove1 (n0 + 2 * j) (remove1 (Suc (n0 + 2 * j))
           (ns @ map (\<lambda>i. n0 + i) [0..<2 * Suc j])) = ns @ map (\<lambda>i. n0 + i) [0..<2 * j]"
proof -
  have a: "Suc (n0 + 2 * j) \<notin> set (ns @ map (\<lambda>i. n0 + i) [0..<2 * j] @ [n0 + 2 * j])"
    using assms by auto
  have b: "n0 + 2 * j \<notin> set (ns @ map (\<lambda>i. n0 + i) [0..<2 * j])"
    using assms by auto
  have "ns @ map (\<lambda>i. n0 + i) [0..<2 * Suc j] =
      (ns @ map (\<lambda>i. n0 + i) [0..<2 * j] @ [n0 + 2 * j]) @ [Suc (n0 + 2 * j)]"
    unfolding upt_double_Suc by simp
  then have "remove1 (Suc (n0 + 2 * j)) (ns @ map (\<lambda>i. n0 + i) [0..<2 * Suc j]) =
      ns @ map (\<lambda>i. n0 + i) [0..<2 * j] @ [n0 + 2 * j]"
    using a by (simp add: remove1_append)
  moreover have "remove1 (n0 + 2 * j) ((ns @ map (\<lambda>i. n0 + i) [0..<2 * j]) @ [n0 + 2 * j]) =
      ns @ map (\<lambda>i. n0 + i) [0..<2 * j]"
    using b by (simp add: remove1_append)
  ultimately show ?thesis by simp
qed

lemma cluster_index_int: "c \<in> set (clusters cg) \<Longrightarrow> cluster_index cg (int c) = Some c"
  by (simp add: cluster_index_def)

lemma postOrder_nth_facts:
  assumes ok: "ClusterGraph_ok g cg" and i: "i < length (postOrder cg)"
  shows "postOrder cg ! i \<in> set (clusters cg)"
    and "set (cnodes cg (postOrder cg ! i)) \<subseteq> set (nodes g)"
    and "\<And>i' n. i' < length (postOrder cg) \<Longrightarrow> n \<in> set (cnodes cg (postOrder cg ! i)) \<Longrightarrow>
           n \<in> set (cnodes cg (postOrder cg ! i')) \<Longrightarrow> i' = i"
proof -
  from ok have pok: "postOrder_ok cg" and k: "cg_consistent (nodes g) cg"
    by (simp_all add: ClusterGraph_ok_def)
  from pok have d: "distinct (postOrder cg)" and se: "set (postOrder cg) = set (clusters cg)"
    by (simp_all add: postOrder_ok_def)
  show c: "postOrder cg ! i \<in> set (clusters cg)" using i se nth_mem by blast
  show "set (cnodes cg (postOrder cg ! i)) \<subseteq> set (nodes g)"
    using cg_consistentD(3)[OF k c] by blast
  fix i' n
  assume i': "i' < length (postOrder cg)" and n: "n \<in> set (cnodes cg (postOrder cg ! i))"
    and n': "n \<in> set (cnodes cg (postOrder cg ! i'))"
  have c': "postOrder cg ! i' \<in> set (clusters cg)" using i' se nth_mem by blast
  have "Some (postOrder cg ! i) = Some (postOrder cg ! i')"
    using cg_consistentD(2)[OF k c n] cg_consistentD(2)[OF k c' n'] by simp
  then show "i' = i" using d i i' by (simp add: nth_eq_iff_index_eq)
qed

lemma undoClusters_gray:
  assumes ok: "ClusterGraph_ok g cg"
    and j: "j \<le> length (postOrder cg) - 1"
    and nd: "nodes (us_G pq) = nodes g @ map (\<lambda>i. nodeIdCount g + i) [0..<2 * j]"
    and tw: "\<forall>i<j. twins (us_matchings pq) (nodeIdCount g + 2 * i) = Some (Suc (nodeIdCount g + 2 * i)) \<and>
        twins (us_matchings pq) (Suc (nodeIdCount g + 2 * i)) = Some (nodeIdCount g + 2 * i) \<and>
        degree (us_G pq) (nodeIdCount g + 2 * i) = degree (us_G pq) (Suc (nodeIdCount g + 2 * i))"
    and rt: "rootCluster (us_cg pq) = rootCluster cg" and cl: "clusters (us_cg pq) = clusters cg"
    and dn: "\<forall>i. j \<le> i \<and> i < length (postOrder cg) \<longrightarrow>
        (\<forall>n\<in>set (cnodes cg (postOrder cg ! i)). clusterOf (us_cg pq) n = Some (postOrder cg ! i))"
  shows "case undoClusters bc
            (rev (map (\<lambda>i. (freeze cg (postOrder cg ! i))\<lparr>fc_parent_node := int (nodeIdCount g + 2 * i)\<rparr>)
               [0..<j])) pq of
           Inl e \<Rightarrow> e = NullPointer \<and> us_augmentation pq \<noteq> None \<and>
             (\<exists>i<j. degree (us_G pq) (nodeIdCount g + 2 * i) = 0)
         | Inr st' \<Rightarrow> nodes (us_G st') = nodes g \<and>
             (\<forall>i<length (postOrder cg). \<forall>n\<in>set (cnodes cg (postOrder cg ! i)).
                clusterOf (us_cg st') n = Some (postOrder cg ! i)) \<and>
             rootCluster (us_cg st') = rootCluster cg \<and> clusters (us_cg st') = clusters cg \<and>
             (us_augmentation pq = None \<longrightarrow> us_augmentation st' = None) \<and>
             (us_augmentation pq = None \<or> (\<forall>i<j. degree (us_G pq) (nodeIdCount g + 2 * i) \<noteq> 0))"
  using j nd tw rt cl dn
proof (induction j arbitrary: pq)
  case 0
  then show ?case by (auto simp: le_less)
next
  case (Suc j)
  from ok have pok: "postOrder_ok cg" and fr: "\<forall>n\<in>set (nodes g). n < nodeIdCount g"
    by (simp_all add: ClusterGraph_ok_def)
  define n0 where "n0 = nodeIdCount g"
  define c where "c = postOrder cg ! j"
  define cn where "cn = n0 + 2 * j"
  define fz where "fz = (\<lambda>i. (freeze cg (postOrder cg ! i))\<lparr>fc_parent_node := int (n0 + 2 * i)\<rparr>)"
  have jl: "j < length (postOrder cg) - 1" using Suc.prems(1) by simp
  then have jl': "j < length (postOrder cg)" by simp
  from postOrder_parent_later[OF pok jl] obtain p where
    cr: "c \<noteq> rootCluster cg" and p: "p \<in> set (drop (Suc j) (postOrder cg))" "parent cg c = Some p"
    unfolding c_def by blast
  have pc: "p \<in> set (clusters cg)"
    using p(1) pok by (metis in_set_dropD postOrder_ok_def)
  note nf = postOrder_nth_facts[OF ok jl', folded c_def]
  have fzj: "fc_index (fz j) = int c" "fc_parent (fz j) = int p" "fc_parent_node (fz j) = int cn"
    "fc_nodes (fz j) = map int (cnodes cg c)"
    by (simp_all add: fz_def freeze_def c_def[symmetric] p cn_def)
  have lst: "rev (map fz [0..<Suc j]) = fz j # rev (map fz [0..<j])" by simp
  have nds: "nodes (us_G pq) = nodes g @ map (\<lambda>i. n0 + i) [0..<2 * Suc j]"
    using Suc.prems(2) by (simp add: n0_def)
  have cn_in: "cn \<in> set (nodes (us_G pq))"
    unfolding nds cn_def by (auto simp: image_iff intro!: bexI[of _ "2 * j"])
  from Suc.prems(3) have twj: "twins (us_matchings pq) cn = Some (Suc cn)"
    "twins (us_matchings pq) (Suc cn) = Some cn" "degree (us_G pq) cn = degree (us_G pq) (Suc cn)"
    by (simp_all add: cn_def n0_def)
  have ci: "cluster_index (us_cg pq) (int p) = Some p" "cluster_index (us_cg pq) (int c) = Some c"
    using pc nf(1) Suc.prems(5) by (simp_all add: cluster_index_int)
  have unf: "undoClusters bc (rev (map fz [0..<Suc j])) pq =
      (case processCluster bc pq c (int cn) of
         Inl e \<Rightarrow> Inl e
       | Inr pq' \<Rightarrow>
           (case reassignNodes (us_G pq') (us_cg pq') c (map int (cnodes cg c)) of
              Inl e \<Rightarrow> Inl e
            | Inr cg' \<Rightarrow> undoClusters bc (rev (map fz [0..<j])) (pq'\<lparr>us_cg := cg'\<rparr>)))"
    unfolding lst using cr Suc.prems(4) ci by (simp add: fzj cong: sum.case_cong)
  have "case undoClusters bc (rev (map fz [0..<Suc j])) pq of
           Inl e \<Rightarrow> e = NullPointer \<and> us_augmentation pq \<noteq> None \<and>
             (\<exists>i<Suc j. degree (us_G pq) (nodeIdCount g + 2 * i) = 0)
         | Inr st' \<Rightarrow> nodes (us_G st') = nodes g \<and>
             (\<forall>i<length (postOrder cg). \<forall>n\<in>set (cnodes cg (postOrder cg ! i)).
                clusterOf (us_cg st') n = Some (postOrder cg ! i)) \<and>
             rootCluster (us_cg st') = rootCluster cg \<and> clusters (us_cg st') = clusters cg \<and>
             (us_augmentation pq = None \<longrightarrow> us_augmentation st' = None) \<and>
             (us_augmentation pq = None \<or> (\<forall>i<Suc j. degree (us_G pq) (nodeIdCount g + 2 * i) \<noteq> 0))"
  proof (cases "us_augmentation pq \<noteq> None \<and> degree (us_G pq) cn = 0")
    case True
    have "\<exists>i<Suc j. degree (us_G pq) (nodeIdCount g + 2 * i) = 0"
      using True by (intro exI[of _ j]) (simp add: cn_def n0_def)
    with processCluster_pipe_fails[OF cn_in twj True, of bc c] True
    show ?thesis unfolding unf by simp
  next
    case False
    note nofail = False
    from processCluster_pipe_returns[OF cn_in twj False, of bc c] obtain pq' where
      go: "processCluster bc pq c (int cn) = Inr pq'"
       "nodes (us_G pq') = remove1 cn (remove1 (Suc cn) (nodes (us_G pq)))"
       "\<forall>w. w \<noteq> cn \<longrightarrow> w \<noteq> Suc cn \<longrightarrow> degree (us_G pq') w = degree (us_G pq) w"
       "twins (us_matchings pq') = (twins (us_matchings pq))(cn := None, Suc cn := None)"
       "\<forall>w. clusterOf (us_cg pq') w = (if w = cn \<or> w = Suc cn then None else clusterOf (us_cg pq) w)"
       "rootCluster (us_cg pq') = rootCluster (us_cg pq)"
       "clusters (us_cg pq') = clusters (us_cg pq)"
       "us_augmentation pq = None \<longrightarrow> us_augmentation pq' = None"
      by blast
    have nd':"nodes (us_G pq') = nodes g @ map (\<lambda>i. n0 + i) [0..<2 * j]"
      unfolding go(2) nds cn_def using remove_gray_pair[of "nodes g" n0 j] fr by (simp add: n0_def)
    have sub: "set (cnodes cg c) \<subseteq> set (nodes (us_G pq'))" using nf(2) nd' by auto
    from reassignNodes_ok[OF sub, of "us_cg pq'" c] obtain cg' where
      ra: "reassignNodes (us_G pq') (us_cg pq') c (map int (cnodes cg c)) = Inr cg'"
        "rootCluster cg' = rootCluster (us_cg pq')" "clusters cg' = clusters (us_cg pq')"
        "\<forall>v. clusterOf cg' v = (if v \<in> set (cnodes cg c) then Some c else clusterOf (us_cg pq') v)"
      by blast
    define pq2 where "pq2 = pq'\<lparr>us_cg := cg'\<rparr>"
    have unf2: "undoClusters bc (rev (map fz [0..<Suc j])) pq = undoClusters bc (rev (map fz [0..<j])) pq2"
      unfolding unf by (simp add: go(1) ra(1) pq2_def)
    have gray_lt: "\<And>n. n \<in> set (nodes g) \<Longrightarrow> n \<noteq> cn \<and> n \<noteq> Suc cn"
      using fr by (auto simp: cn_def n0_def)
    have ih: "case undoClusters bc
            (rev (map (\<lambda>i. (freeze cg (postOrder cg ! i))\<lparr>fc_parent_node := int (nodeIdCount g + 2 * i)\<rparr>)
               [0..<j])) pq2 of
           Inl e \<Rightarrow> e = NullPointer \<and> us_augmentation pq2 \<noteq> None \<and>
             (\<exists>i<j. degree (us_G pq2) (nodeIdCount g + 2 * i) = 0)
         | Inr st' \<Rightarrow> nodes (us_G st') = nodes g \<and>
             (\<forall>i<length (postOrder cg). \<forall>n\<in>set (cnodes cg (postOrder cg ! i)).
                clusterOf (us_cg st') n = Some (postOrder cg ! i)) \<and>
             rootCluster (us_cg st') = rootCluster cg \<and> clusters (us_cg st') = clusters cg \<and>
             (us_augmentation pq2 = None \<longrightarrow> us_augmentation st' = None) \<and>
             (us_augmentation pq2 = None \<or> (\<forall>i<j. degree (us_G pq2) (nodeIdCount g + 2 * i) \<noteq> 0))"
    proof (rule Suc.IH)
      show "j \<le> length (postOrder cg) - 1" using jl by simp
      show "nodes (us_G pq2) = nodes g @ map (\<lambda>i. nodeIdCount g + i) [0..<2 * j]"
        using nd' by (simp add: pq2_def n0_def)
      show "\<forall>i<j. twins (us_matchings pq2) (nodeIdCount g + 2 * i) = Some (Suc (nodeIdCount g + 2 * i)) \<and>
        twins (us_matchings pq2) (Suc (nodeIdCount g + 2 * i)) = Some (nodeIdCount g + 2 * i) \<and>
        degree (us_G pq2) (nodeIdCount g + 2 * i) = degree (us_G pq2) (Suc (nodeIdCount g + 2 * i))"
      proof (intro allI impI)
        fix i assume i: "i < j"
        then have ne: "n0 + 2 * i \<noteq> cn" "n0 + 2 * i \<noteq> Suc cn" "Suc (n0 + 2 * i) \<noteq> cn"
          "Suc (n0 + 2 * i) \<noteq> Suc cn"
          unfolding cn_def by presburger+
        from Suc.prems(3) i have o: "twins (us_matchings pq) (n0 + 2 * i) = Some (Suc (n0 + 2 * i))"
          "twins (us_matchings pq) (Suc (n0 + 2 * i)) = Some (n0 + 2 * i)"
          "degree (us_G pq) (n0 + 2 * i) = degree (us_G pq) (Suc (n0 + 2 * i))"
          by (simp_all add: n0_def)
        show "twins (us_matchings pq2) (nodeIdCount g + 2 * i) = Some (Suc (nodeIdCount g + 2 * i)) \<and>
          twins (us_matchings pq2) (Suc (nodeIdCount g + 2 * i)) = Some (nodeIdCount g + 2 * i) \<and>
          degree (us_G pq2) (nodeIdCount g + 2 * i) = degree (us_G pq2) (Suc (nodeIdCount g + 2 * i))"
          using o ne go(3) by (simp add: pq2_def go(4) n0_def[symmetric])
      qed
      show "rootCluster (us_cg pq2) = rootCluster cg" using ra(2) go(6) Suc.prems(4) by (simp add: pq2_def)
      show "clusters (us_cg pq2) = clusters cg" using ra(3) go(7) Suc.prems(5) by (simp add: pq2_def)
      show "\<forall>i. j \<le> i \<and> i < length (postOrder cg) \<longrightarrow>
        (\<forall>n\<in>set (cnodes cg (postOrder cg ! i)). clusterOf (us_cg pq2) n = Some (postOrder cg ! i))"
      proof (intro allI impI ballI)
        fix i n assume i: "j \<le> i \<and> i < length (postOrder cg)"
          and n: "n \<in> set (cnodes cg (postOrder cg ! i))"
        show "clusterOf (us_cg pq2) n = Some (postOrder cg ! i)"
        proof (cases "i = j")
          case True
          then show ?thesis using n ra(4) by (simp add: pq2_def c_def)
        next
          case False
          then have "n \<notin> set (cnodes cg c)" using nf(3)[of i n] i n by auto
          moreover have "n \<in> set (nodes g)" using postOrder_nth_facts(2)[OF ok, of i] i n by auto
          moreover have "clusterOf (us_cg pq) n = Some (postOrder cg ! i)"
            using Suc.prems(6) i n False by auto
          ultimately show ?thesis using ra(4) go(5) gray_lt by (simp add: pq2_def)
        qed
      qed
    qed
    have au: "us_augmentation pq2 = us_augmentation pq'" by (simp add: pq2_def)
    have dg: "\<And>i. i < j \<Longrightarrow> degree (us_G pq2) (nodeIdCount g + 2 * i) = 0 \<Longrightarrow>
        degree (us_G pq) (nodeIdCount g + 2 * i) = 0"
    proof -
      fix i assume i: "i < j" and z: "degree (us_G pq2) (nodeIdCount g + 2 * i) = 0"
      have "n0 + 2 * i \<noteq> cn" "n0 + 2 * i \<noteq> Suc cn" using i unfolding cn_def by presburger+
      then show "degree (us_G pq) (nodeIdCount g + 2 * i) = 0"
        using go(3) z by (simp add: pq2_def n0_def)
    qed
    show ?thesis
    proof (cases "undoClusters bc (rev (map fz [0..<j])) pq2")
      case (Inl e)
      with ih have a: "us_augmentation pq2 \<noteq> None" and en: "e = NullPointer"
        and "\<exists>i<j. degree (us_G pq2) (nodeIdCount g + 2 * i) = 0"
        by (simp_all add: fz_def n0_def)
      then obtain i where "i < j" "degree (us_G pq2) (nodeIdCount g + 2 * i) = 0" by blast
      then have "i < Suc j" "degree (us_G pq) (nodeIdCount g + 2 * i) = 0" using dg by simp_all
      then have "\<exists>i<Suc j. degree (us_G pq) (nodeIdCount g + 2 * i) = 0" by blast
      moreover have "us_augmentation pq \<noteq> None" using a go(8) au by auto
      ultimately show ?thesis unfolding unf2 Inl using en by simp
    next
      case (Inr st')
      have nz: "us_augmentation pq = None \<or>
          (\<forall>i<Suc j. degree (us_G pq) (nodeIdCount g + 2 * i) \<noteq> 0)"
      proof (cases "us_augmentation pq = None")
        case True
        then show ?thesis by simp
      next
        case False
        with nofail have dc: "degree (us_G pq) cn \<noteq> 0" by simp
        from processCluster_aug[OF go(1) False] au have "us_augmentation pq2 \<noteq> None" by simp
        with ih Inr have z: "\<forall>i<j. degree (us_G pq2) (nodeIdCount g + 2 * i) \<noteq> 0"
          by (auto simp: fz_def n0_def)
        have "degree (us_G pq) (nodeIdCount g + 2 * i) \<noteq> 0" if i: "i < Suc j" for i
        proof (cases "i = j")
          case True
          then show ?thesis using dc by (simp add: cn_def n0_def)
        next
          case False
          with i have ij: "i < j" by simp
          then have "n0 + 2 * i \<noteq> cn" "n0 + 2 * i \<noteq> Suc cn" unfolding cn_def by presburger+
          then have "degree (us_G pq2) (nodeIdCount g + 2 * i) = degree (us_G pq) (nodeIdCount g + 2 * i)"
            using go(3) by (simp add: pq2_def n0_def)
          with z ij show ?thesis by metis
        qed
        then show ?thesis by blast
      qed
      from Inr ih go(8) au nz show ?thesis unfolding unf2 by (auto simp: fz_def n0_def)
    qed
  qed
  then show ?case by (simp add: fz_def n0_def)
qed

section \<open>Construction followed by the undo\<close>

lemma construct_then_undo_cases:
  assumes ok: "ClusterGraph_ok g cg"
  shows "\<exists>st1 r. initClusters (postOrder cg) 0 (ctor_init g cg) = Inr st1 \<and>
     construct_then_undo bc g cg aug = Some r \<and>
     (case r of
        Inl e \<Rightarrow> e = NullPointer \<and> aug \<noteq> None \<and>
          (\<exists>i<length (postOrder cg) - 1. degree (cs_G st1) (nodeIdCount g + 2 * i) = 0)
      | Inr st' \<Rightarrow> nodes (us_G st') = nodes g \<and>
          (\<forall>n\<in>set (nodes g). clusterOf (us_cg st') n = clusterOf cg n) \<and>
          rootCluster (us_cg st') = rootCluster cg \<and> clusters (us_cg st') = clusters cg \<and>
          adjAvailable (us_cg st') \<and>
          (aug = None \<or>
           (\<forall>i<length (postOrder cg) - 1. degree (cs_G st1) (nodeIdCount g + 2 * i) \<noteq> 0)))"
proof -
  from ok have pok: "postOrder_ok cg" and kc: "cg_consistent (nodes g) cg"
    by (simp_all add: ClusterGraph_ok_def)
  note po = postOrder_okD[OF pok]
  from pok have pr: "parent cg (rootCluster cg) = None" and sp: "set (postOrder cg) = set (clusters cg)"
    and ne: "postOrder cg \<noteq> []" and la: "last (postOrder cg) = rootCluster cg"
    by (simp_all add: postOrder_ok_def)
  define k where "k = length (postOrder cg) - 1"
  have kl: "k < length (postOrder cg)" using ne by (simp add: k_def)
  have rk: "postOrder cg ! k = rootCluster cg" using la ne by (simp add: k_def last_conv_nth)
  define aug' where "aug' = (case aug of None \<Rightarrow> None | Some _ \<Rightarrow> Some ([]::(adjEntry option \<times> adjEntry option) list))"
  have aug'_None: "aug' = None \<longleftrightarrow> aug = None" by (simp add: aug'_def split: option.splits)
  from SyncPlan_new_ok[OF ok, of aug] obtain st1 cg' where
    s: "initClusters (postOrder cg) 0 (ctor_init g cg) = Inr st1"
    and spn: "SyncPlan_new g cg aug =
       Some (Inr (\<lparr>sp_G = cs_G st1, matchings = cs_matchings st1,
                   undo_stack = [ResetIndices, UndoInitCluster (cs_op st1)]\<rparr>, cg', aug'))"
    and st: "rootCluster cg' = rootCluster cg" "clusters cg' = clusters cg"
    unfolding aug'_def by blast
  note gr = initClusters_ctor_gray[OF pok s, folded k_def]
  define fz where "fz = (\<lambda>i. (freeze cg (postOrder cg ! i))\<lparr>fc_parent_node := int (nodeIdCount g + 2 * i)\<rparr>)"
  have op: "cs_op st1 = freeze cg (rootCluster cg) # rev (map fz [0..<k])"
    using initClusters_ctor_op[OF pok s] by (simp add: fz_def k_def)
  define pq0 where "pq0 = \<lparr>us_G = cs_G st1, us_matchings = cs_matchings st1, us_cg = cg',
     us_augmentation = aug'\<rparr>"
  have ctu: "construct_then_undo bc g cg aug = Some (UndoInitCluster_undo bc (cs_op st1) pq0)"
    by (simp add: construct_then_undo_def spn pq0_def)
  define b where "b = (if aug' \<noteq> None then bc (cs_G st1) else (\<lambda>_. - 1))"
  define cg1 where "cg1 = cg'\<lparr>cAdjEntries := (cAdjEntries cg')(rootCluster cg' := [])\<rparr>"
  define pq1 where "pq1 = pq0\<lparr>us_cg := cg1\<rparr>"
  have uu: "UndoInitCluster_undo bc (cs_op st1) pq0 =
      (case undoClusters b (cs_op st1) pq1 of
         Inl e \<Rightarrow> Inl e
       | Inr pq' \<Rightarrow> Inr (pq'\<lparr>us_cg := (us_cg pq')\<lparr>adjAvailable := True\<rparr>\<rparr>))"
    by (simp add: UndoInitCluster_undo_def Let_def b_def cg1_def pq1_def pq0_def)
  have sub: "set (cnodes cg (rootCluster cg)) \<subseteq> set (nodes (us_G pq1))"
    using cg_consistentD(3)[OF kc po(4)] gr by (auto simp: pq1_def pq0_def)
  from reassignNodes_ok[OF sub, of cg1 "rootCluster cg"] obtain cg2 where
    ra: "reassignNodes (us_G pq1) cg1 (rootCluster cg) (map int (cnodes cg (rootCluster cg))) = Inr cg2"
      "rootCluster cg2 = rootCluster cg1" "clusters cg2 = clusters cg1"
      "\<forall>v. clusterOf cg2 v = (if v \<in> set (cnodes cg (rootCluster cg)) then Some (rootCluster cg) else clusterOf cg1 v)"
    by blast
  define pq2 where "pq2 = pq1\<lparr>us_cg := cg2\<rparr>"
  have r1: "rootCluster (us_cg pq1) = rootCluster cg" by (simp add: pq1_def cg1_def st)
  have un: "undoClusters b (cs_op st1) pq1 = undoClusters b (rev (map fz [0..<k])) pq2"
    unfolding op using r1 pr ra(1) by (simp add: freeze_def pq2_def pq1_def)
  have g: "case undoClusters b
            (rev (map (\<lambda>i. (freeze cg (postOrder cg ! i))\<lparr>fc_parent_node := int (nodeIdCount g + 2 * i)\<rparr>)
               [0..<k])) pq2 of
           Inl e \<Rightarrow> e = NullPointer \<and> us_augmentation pq2 \<noteq> None \<and>
             (\<exists>i<k. degree (us_G pq2) (nodeIdCount g + 2 * i) = 0)
         | Inr st' \<Rightarrow> nodes (us_G st') = nodes g \<and>
             (\<forall>i<length (postOrder cg). \<forall>n\<in>set (cnodes cg (postOrder cg ! i)).
                clusterOf (us_cg st') n = Some (postOrder cg ! i)) \<and>
             rootCluster (us_cg st') = rootCluster cg \<and> clusters (us_cg st') = clusters cg \<and>
             (us_augmentation pq2 = None \<longrightarrow> us_augmentation st' = None) \<and>
             (us_augmentation pq2 = None \<or> (\<forall>i<k. degree (us_G pq2) (nodeIdCount g + 2 * i) \<noteq> 0))"
  proof (rule undoClusters_gray[OF ok])
    show "k \<le> length (postOrder cg) - 1" by (simp add: k_def)
    show "nodes (us_G pq2) = nodes g @ map (\<lambda>i. nodeIdCount g + i) [0..<2 * k]"
      using gr by (simp add: pq2_def pq1_def pq0_def)
    show "\<forall>i<k. twins (us_matchings pq2) (nodeIdCount g + 2 * i) = Some (Suc (nodeIdCount g + 2 * i)) \<and>
        twins (us_matchings pq2) (Suc (nodeIdCount g + 2 * i)) = Some (nodeIdCount g + 2 * i) \<and>
        degree (us_G pq2) (nodeIdCount g + 2 * i) = degree (us_G pq2) (Suc (nodeIdCount g + 2 * i))"
      using gr by (simp add: pq2_def pq1_def pq0_def)
    show "rootCluster (us_cg pq2) = rootCluster cg" using ra(2) by (simp add: pq2_def cg1_def st)
    show "clusters (us_cg pq2) = clusters cg" using ra(3) by (simp add: pq2_def cg1_def st)
    show "\<forall>i. k \<le> i \<and> i < length (postOrder cg) \<longrightarrow>
        (\<forall>n\<in>set (cnodes cg (postOrder cg ! i)). clusterOf (us_cg pq2) n = Some (postOrder cg ! i))"
    proof (intro allI impI ballI)
      fix i n assume i: "k \<le> i \<and> i < length (postOrder cg)"
        and n: "n \<in> set (cnodes cg (postOrder cg ! i))"
      from i have "i = k" unfolding k_def by linarith
      then show "clusterOf (us_cg pq2) n = Some (postOrder cg ! i)"
        using n rk ra(4) by (simp add: pq2_def)
    qed
  qed
  define r where "r = UndoInitCluster_undo bc (cs_op st1) pq0"
  have "case r of
        Inl e \<Rightarrow> e = NullPointer \<and> aug \<noteq> None \<and>
          (\<exists>i<length (postOrder cg) - 1. degree (cs_G st1) (nodeIdCount g + 2 * i) = 0)
      | Inr st' \<Rightarrow> nodes (us_G st') = nodes g \<and>
          (\<forall>n\<in>set (nodes g). clusterOf (us_cg st') n = clusterOf cg n) \<and>
          rootCluster (us_cg st') = rootCluster cg \<and> clusters (us_cg st') = clusters cg \<and>
          adjAvailable (us_cg st') \<and>
          (aug = None \<or>
           (\<forall>i<length (postOrder cg) - 1. degree (cs_G st1) (nodeIdCount g + 2 * i) \<noteq> 0))"
  proof (cases "undoClusters b (rev (map fz [0..<k])) pq2")
    case (Inl e)
    then have "r = Inl e" by (simp add: r_def uu un)
    moreover from g Inl have "e = NullPointer" "us_augmentation pq2 \<noteq> None"
      "\<exists>i<k. degree (us_G pq2) (nodeIdCount g + 2 * i) = 0"
      by (simp_all add: fz_def)
    ultimately show ?thesis
      using aug'_None by (simp add: pq2_def pq1_def pq0_def k_def)
  next
    case (Inr st')
    then have re: "r = Inr (st'\<lparr>us_cg := (us_cg st')\<lparr>adjAvailable := True\<rparr>\<rparr>)"
      by (simp add: r_def uu un)
    from g Inr have p: "nodes (us_G st') = nodes g"
      "\<forall>i<length (postOrder cg). \<forall>n\<in>set (cnodes cg (postOrder cg ! i)).
                clusterOf (us_cg st') n = Some (postOrder cg ! i)"
      "rootCluster (us_cg st') = rootCluster cg" "clusters (us_cg st') = clusters cg"
      "us_augmentation pq2 = None \<or> (\<forall>i<k. degree (us_G pq2) (nodeIdCount g + 2 * i) \<noteq> 0)"
      by (simp_all add: fz_def)
    then have nz: "aug = None \<or>
        (\<forall>i<length (postOrder cg) - 1. degree (cs_G st1) (nodeIdCount g + 2 * i) \<noteq> 0)"
      using aug'_None by (simp add: pq2_def pq1_def pq0_def k_def)
    have "\<forall>n\<in>set (nodes g). clusterOf (us_cg st') n = clusterOf cg n"
    proof
      fix n assume "n \<in> set (nodes g)"
      from cg_consistentD(4)[OF kc this] obtain c where
        c: "c \<in> set (clusters cg)" "clusterOf cg n = Some c" "n \<in> set (cnodes cg c)" by blast
      from c(1) sp obtain i where i: "i < length (postOrder cg)" "postOrder cg ! i = c"
        by (metis in_set_conv_nth)
      then show "clusterOf (us_cg st') n = clusterOf cg n" using p(2) c by auto
    qed
    then show ?thesis using re p(1-4) nz by simp
  qed
  then show ?thesis using s ctu unfolding r_def by blast
qed

section \<open>Properties of the undo\<close>

text \<open>
  C3. \<open>UndoInitCluster::undo\<close>, applied to what the constructor left, returns exactly
  when no augmentation vector was given or every pipe has an edge; otherwise
  \<open>processCluster\<close> reads the front of the empty bijection of a pipe without edges.
  Whenever it returns, every node of the input graph is back in the cluster it had
  before the construction and every gray node has been removed.
\<close>

theorem construct_then_undo_restores_assignment:
  assumes "ClusterGraph_ok g cg"
  shows "\<exists>st1 r.
     initClusters (postOrder cg) 0 (ctor_init g cg) = Inr st1 \<and>
     construct_then_undo bc g cg aug = Some r \<and>
     ((\<exists>st'. r = Inr st') \<longleftrightarrow>
        (aug = None \<or> (\<forall>i<length (postOrder cg) - 1. degree (cs_G st1) (nodeIdCount g + 2 * i) \<noteq> 0))) \<and>
     (\<forall>e. r = Inl e \<longrightarrow> e = NullPointer) \<and>
     (\<forall>st'. r = Inr st' \<longrightarrow>
        (\<forall>n\<in>set (nodes g). clusterOf (us_cg st') n = clusterOf cg n) \<and>
        nodes (us_G st') = nodes g \<and> (\<forall>j. nodeIdCount g + j \<notin> set (nodes (us_G st'))) \<and>
        clusters (us_cg st') = clusters cg \<and> rootCluster (us_cg st') = rootCluster cg)"
proof -
  from assms have fr: "\<forall>n\<in>set (nodes g). n < nodeIdCount g" by (simp add: ClusterGraph_ok_def)
  from construct_then_undo_cases[OF assms, of bc aug] obtain st1 r where
    s: "initClusters (postOrder cg) 0 (ctor_init g cg) = Inr st1"
    and c: "construct_then_undo bc g cg aug = Some r"
    and r: "case r of
        Inl e \<Rightarrow> e = NullPointer \<and> aug \<noteq> None \<and>
          (\<exists>i<length (postOrder cg) - 1. degree (cs_G st1) (nodeIdCount g + 2 * i) = 0)
      | Inr st' \<Rightarrow> nodes (us_G st') = nodes g \<and>
          (\<forall>n\<in>set (nodes g). clusterOf (us_cg st') n = clusterOf cg n) \<and>
          rootCluster (us_cg st') = rootCluster cg \<and> clusters (us_cg st') = clusters cg \<and>
          adjAvailable (us_cg st') \<and>
          (aug = None \<or>
           (\<forall>i<length (postOrder cg) - 1. degree (cs_G st1) (nodeIdCount g + 2 * i) \<noteq> 0))"
    by blast
  have a: "(\<exists>st'. r = Inr st') \<longleftrightarrow>
        (aug = None \<or> (\<forall>i<length (postOrder cg) - 1. degree (cs_G st1) (nodeIdCount g + 2 * i) \<noteq> 0))"
    using r by (cases r) auto
  have n: "\<forall>e. r = Inl e \<longrightarrow> e = NullPointer"
    using r by (cases r) auto
  have b: "\<forall>st'. r = Inr st' \<longrightarrow>
        (\<forall>n\<in>set (nodes g). clusterOf (us_cg st') n = clusterOf cg n) \<and>
        nodes (us_G st') = nodes g \<and> (\<forall>j. nodeIdCount g + j \<notin> set (nodes (us_G st'))) \<and>
        clusters (us_cg st') = clusters cg \<and> rootCluster (us_cg st') = rootCluster cg"
  proof (intro allI impI)
    fix st' assume e: "r = Inr st'"
    with r have p: "nodes (us_G st') = nodes g"
      "\<forall>n\<in>set (nodes g). clusterOf (us_cg st') n = clusterOf cg n"
      "rootCluster (us_cg st') = rootCluster cg" "clusters (us_cg st') = clusters cg"
      by simp_all
    have "\<forall>j. nodeIdCount g + j \<notin> set (nodes (us_G st'))" using fr p(1) by fastforce
    then show "(\<forall>n\<in>set (nodes g). clusterOf (us_cg st') n = clusterOf cg n) \<and>
        nodes (us_G st') = nodes g \<and> (\<forall>j. nodeIdCount g + j \<notin> set (nodes (us_G st'))) \<and>
        clusters (us_cg st') = clusters cg \<and> rootCluster (us_cg st') = rootCluster cg"
      using p by simp
  qed
  show ?thesis using s c a n b by blast
qed

theorem construct_then_undo_restores_assignment_witness:
  "ClusterGraph_ok triangle cg_tri \<and>
   (\<exists>st'. construct_then_undo (\<lambda>_ _. 0) triangle cg_tri None = Some (Inr st') \<and>
      nodes (us_G st') = [0, 1, 2] \<and> clusterOf (us_cg st') 0 = Some 1 \<and>
      clusterOf (us_cg st') 1 = Some 1 \<and> clusterOf (us_cg st') 2 = Some 0)"
proof -
  from construct_then_undo_restores_assignment[OF ClusterGraph_ok_tri, of "\<lambda>_ _. 0" None]
  obtain r where c: "construct_then_undo (\<lambda>_ _. 0) triangle cg_tri None = Some r"
    and a: "\<exists>st'. r = Inr st'"
    and b: "\<forall>st'. r = Inr st' \<longrightarrow>
        (\<forall>n\<in>set (nodes triangle). clusterOf (us_cg st') n = clusterOf cg_tri n) \<and>
        nodes (us_G st') = nodes triangle"
    by auto
  from a obtain st' where e: "r = Inr st'" by blast
  with b have "\<forall>n\<in>set (nodes triangle). clusterOf (us_cg st') n = clusterOf cg_tri n"
    "nodes (us_G st') = nodes triangle" by simp_all
  then have "nodes (us_G st') = [0, 1, 2]" "clusterOf (us_cg st') 0 = Some 1"
    "clusterOf (us_cg st') 1 = Some 1" "clusterOf (us_cg st') 2 = Some 0"
    by (simp_all add: triangle_def cg_tri_def)
  then show ?thesis using c e ClusterGraph_ok_tri by blast
qed

lemma ClusterGraph_ok_one: "ClusterGraph_ok g_one cg_one"
  by (auto simp: ClusterGraph_ok_def postOrder_ok_def cg_consistent_def cg_one_def g_one_def)

text \<open>
  C1. A graph of one node, which lies in a child cluster of the root, is well formed and
  its cluster has no perimeter-crossing edge: the constructor registers a pipe of degree
  zero for it. With an augmentation vector, the undo of the constructor's record then
  reads the front of the empty bijection of that pipe in \<open>processCluster\<close> and does not
  rebuild the adjacency entries of the cluster; without one it returns.
\<close>

theorem undo_reads_front_of_empty_bijection:
  "(case construct_then_undo bc g_one cg_one (Some []) of
      Some (Inl e) \<Rightarrow> e = NullPointer | _ \<Rightarrow> False) \<and>
   (case construct_then_undo bc g_one cg_one None of
      Some (Inr st') \<Rightarrow> nodes (us_G st') = [0] \<and> clusterOf (us_cg st') 0 = Some 1
    | _ \<Rightarrow> False)"
  by code_simp

theorem undo_reads_front_of_empty_bijection_witness:
  "(case construct_then_undo (\<lambda>_ _. 0) g_one cg_one (Some []) of
      Some (Inl e) \<Rightarrow> e = NullPointer | _ \<Rightarrow> False)"
  using undo_reads_front_of_empty_bijection[of "\<lambda>_ _. 0"] by simp

section \<open>The module functions\<close>

lemma SyncPlan_new_returns:
  assumes "ClusterGraph_ok g cg"
  shows "\<exists>SP. SyncPlan_new g cg aug = Some (Inr SP)"
  using SyncPlan_new_ok[OF assms, of aug] by blast

text \<open>
  C4. On a well-formed input the module functions return a boolean and raise nothing.
  \<open>isClusterPlanarDestructive\<close> returns true exactly when \<open>makeReduced\<close> and then
  \<open>solveReduced\<close>, applied to what \<open>makeReduced\<close> left, return true; it calls
  \<open>solveReduced\<close> exactly when \<open>makeReduced\<close> returned true and never calls \<open>embed\<close>, and
  it leaves the objects as the last operation called left them. When \<open>makeReduced\<close>
  returns false the result is the same whatever \<open>solveReduced\<close> and \<open>embed\<close> are.
  \<open>clusterPlanarEmbedClusterPlanarGraph\<close> returns the same conjunction and calls
  \<open>embed\<close> exactly when it is true: then the objects are what \<open>embed\<close> made of them, and
  otherwise the result is the same whatever \<open>embed\<close> is.
\<close>

theorem module_result_is_conjunction:
  assumes "ClusterGraph_ok G CG"
  shows "\<exists>SP SPa r ra.
     SyncPlan_new G CG None = Some (Inr SP) \<and>
     isClusterPlanarDestructive K CG G m_augmentation = Some (Inr r) \<and>
     (let (b1, w1) = makeReduced K SP; (b2, w2) = solveReduced K w1;
          w = (if b1 then w2 else w1)
      in returned r = (b1 \<and> b2) \<and>
         calls r = (if b1 then [MakeReduced, SolveReduced] else [MakeReduced]) \<and>
         (SolveReduced \<in> set (calls r)) = b1 \<and> Embed \<notin> set (calls r) \<and>
         res_G r = sp_G (fst w) \<and> res_CG r = fst (snd w) \<and>
         res_augmentation r = m_augmentation \<and>
         (\<forall>e. isClusterPlanarDestructive (K\<lparr>embed := e\<rparr>) CG G m_augmentation =
              isClusterPlanarDestructive K CG G m_augmentation) \<and>
         (\<not> b1 \<longrightarrow>
            (\<forall>f. isClusterPlanarDestructive (K\<lparr>solveReduced := f\<rparr>) CG G m_augmentation =
                 isClusterPlanarDestructive K CG G m_augmentation))) \<and>
     SyncPlan_new G CG m_augmentation = Some (Inr SPa) \<and>
     clusterPlanarEmbedClusterPlanarGraph K CG G m_augmentation = Some (Inr ra) \<and>
     (let (b1, w1) = makeReduced K SPa; (b2, w2) = solveReduced K w1;
          w = (if b1 then if b2 then embed K w2 else w2 else w1)
      in returned ra = (b1 \<and> b2) \<and>
         calls ra = (if b1 then if b2 then [MakeReduced, SolveReduced, Embed]
                                else [MakeReduced, SolveReduced]
                     else [MakeReduced]) \<and>
         (SolveReduced \<in> set (calls ra)) = b1 \<and> (Embed \<in> set (calls ra)) = returned ra \<and>
         res_G ra = sp_G (fst w) \<and> res_CG ra = fst (snd w) \<and>
         res_augmentation ra = snd (snd w) \<and>
         (\<not> (b1 \<and> b2) \<longrightarrow>
            (\<forall>e. clusterPlanarEmbedClusterPlanarGraph (K\<lparr>embed := e\<rparr>) CG G m_augmentation =
                 clusterPlanarEmbedClusterPlanarGraph K CG G m_augmentation)) \<and>
         (\<not> b1 \<longrightarrow>
            (\<forall>f. clusterPlanarEmbedClusterPlanarGraph (K\<lparr>solveReduced := f\<rparr>) CG G m_augmentation =
                 clusterPlanarEmbedClusterPlanarGraph K CG G m_augmentation)))"
proof -
  from SyncPlan_new_returns[OF assms, of None] obtain SP where
    sp: "SyncPlan_new G CG None = Some (Inr SP)" by blast
  from SyncPlan_new_returns[OF assms, of m_augmentation] obtain SPa where
    spa: "SyncPlan_new G CG m_augmentation = Some (Inr SPa)" by blast
  have d: "isClusterPlanarDestructive K' CG G m =
     Some (Inr (if fst (makeReduced K' SP)
        then \<lparr>returned = fst (solveReduced K' (snd (makeReduced K' SP))),
              calls = [MakeReduced, SolveReduced],
              res_CG = fst (snd (snd (solveReduced K' (snd (makeReduced K' SP))))),
              res_G = sp_G (fst (snd (solveReduced K' (snd (makeReduced K' SP))))),
              res_augmentation = m\<rparr>
        else \<lparr>returned = False, calls = [MakeReduced],
              res_CG = fst (snd (snd (makeReduced K' SP))),
              res_G = sp_G (fst (snd (makeReduced K' SP))),
              res_augmentation = m\<rparr>))"
    for K' m
    unfolding isClusterPlanarDestructive_def sp
    by (simp add: split_def Let_def call_makeReduced_def call_solveReduced_def call_embed_def)
  have e: "clusterPlanarEmbedClusterPlanarGraph K' CG G m_augmentation =
     Some (Inr (if fst (makeReduced K' SPa)
        then if fst (solveReduced K' (snd (makeReduced K' SPa)))
             then \<lparr>returned = True, calls = [MakeReduced, SolveReduced, Embed],
                   res_CG = fst (snd (embed K' (snd (solveReduced K' (snd (makeReduced K' SPa)))))),
                   res_G = sp_G (fst (embed K' (snd (solveReduced K' (snd (makeReduced K' SPa)))))),
                   res_augmentation = snd (snd (embed K' (snd (solveReduced K' (snd (makeReduced K' SPa))))))\<rparr>
             else \<lparr>returned = False, calls = [MakeReduced, SolveReduced],
                   res_CG = fst (snd (snd (solveReduced K' (snd (makeReduced K' SPa))))),
                   res_G = sp_G (fst (snd (solveReduced K' (snd (makeReduced K' SPa))))),
                   res_augmentation = snd (snd (snd (solveReduced K' (snd (makeReduced K' SPa)))))\<rparr>
        else \<lparr>returned = False, calls = [MakeReduced],
              res_CG = fst (snd (snd (makeReduced K' SPa))),
              res_G = sp_G (fst (snd (makeReduced K' SPa))),
              res_augmentation = snd (snd (snd (makeReduced K' SPa)))\<rparr>))"
    for K'
    unfolding clusterPlanarEmbedClusterPlanarGraph_def spa
    by (simp add: split_def Let_def call_makeReduced_def call_solveReduced_def call_embed_def)
  show ?thesis
    apply (rule exI[of _ SP], rule exI[of _ SPa])
    by (simp add: sp spa d e split_def Let_def)
qed

theorem module_result_is_conjunction_witness:
  "ClusterGraph_ok triangle cg_tri \<and>
   (\<exists>SP cg' aug' r ra rb.
      SyncPlan_new triangle cg_tri None = Some (Inr (SP, cg', aug')) \<and>
      isClusterPlanarDestructive (K_mark True False) cg_tri triangle None = Some (Inr r) \<and>
      returned r = False \<and> calls r = [MakeReduced, SolveReduced] \<and> res_CG r = cg' \<and>
      clusterPlanarEmbedClusterPlanarGraph (K_mark True False) cg_tri triangle None = Some (Inr ra) \<and>
      returned ra = False \<and> calls ra = [MakeReduced, SolveReduced] \<and> res_CG ra = cg' \<and>
      clusterPlanarEmbedClusterPlanarGraph (K_mark True True) cg_tri triangle None = Some (Inr rb) \<and>
      returned rb = True \<and> calls rb = [MakeReduced, SolveReduced, Embed] \<and>
      res_CG rb = cg'\<lparr>adjAvailable := True\<rparr>)"
proof -
  have k: "makeReduced (K_mark r1 r2) = (\<lambda>w. (r1, w))" "solveReduced (K_mark r1 r2) = (\<lambda>w. (r2, w))"
    "embed (K_mark r1 r2) = (\<lambda>w. (fst w, (fst (snd w))\<lparr>adjAvailable := True\<rparr>, snd (snd w)))"
    for r1 r2
    by (simp_all add: K_mark_def K_ex_def)
  from module_result_is_conjunction[OF ClusterGraph_ok_tri, of "K_mark True False" None]
  obtain W r ra where
    w: "SyncPlan_new triangle cg_tri None = Some (Inr W)"
    and a: "isClusterPlanarDestructive (K_mark True False) cg_tri triangle None = Some (Inr r)"
      "returned r = False" "calls r = [MakeReduced, SolveReduced]" "res_CG r = fst (snd W)"
    and b: "clusterPlanarEmbedClusterPlanarGraph (K_mark True False) cg_tri triangle None = Some (Inr ra)"
      "returned ra = False" "calls ra = [MakeReduced, SolveReduced]" "res_CG ra = fst (snd W)"
    unfolding k Let_def split_def by auto
  from module_result_is_conjunction[OF ClusterGraph_ok_tri, of "K_mark True True" None]
  obtain W' rb where
    w': "SyncPlan_new triangle cg_tri None = Some (Inr W')"
    and c: "clusterPlanarEmbedClusterPlanarGraph (K_mark True True) cg_tri triangle None = Some (Inr rb)"
      "returned rb = True" "calls rb = [MakeReduced, SolveReduced, Embed]"
      "res_CG rb = (fst (snd W'))\<lparr>adjAvailable := True\<rparr>"
    unfolding k Let_def split_def by auto
  from w w' have e: "W' = W" by simp
  obtain SP cg' aug' where W: "W = (SP, cg', aug')" by (cases W) auto
  have "\<exists>SP cg' aug' r ra rb.
      SyncPlan_new triangle cg_tri None = Some (Inr (SP, cg', aug')) \<and>
      isClusterPlanarDestructive (K_mark True False) cg_tri triangle None = Some (Inr r) \<and>
      returned r = False \<and> calls r = [MakeReduced, SolveReduced] \<and> res_CG r = cg' \<and>
      clusterPlanarEmbedClusterPlanarGraph (K_mark True False) cg_tri triangle None = Some (Inr ra) \<and>
      returned ra = False \<and> calls ra = [MakeReduced, SolveReduced] \<and> res_CG ra = cg' \<and>
      clusterPlanarEmbedClusterPlanarGraph (K_mark True True) cg_tri triangle None = Some (Inr rb) \<and>
      returned rb = True \<and> calls rb = [MakeReduced, SolveReduced, Embed] \<and>
      res_CG rb = cg'\<lparr>adjAvailable := True\<rparr>"
    apply (rule exI[of _ SP], rule exI[of _ cg'], rule exI[of _ aug'])
    apply (rule exI[of _ r], rule exI[of _ ra], rule exI[of _ rb])
    using w a b c unfolding e W by simp
  then show ?thesis using ClusterGraph_ok_tri by - (intro conjI; assumption)
qed

lemma fold_cAdjEntries_static:
  "adjAvailable (fold (\<lambda>c cg. cg\<lparr>cAdjEntries := (cAdjEntries cg)(c := f c)\<rparr>) cs cg) = adjAvailable cg"
  by (induction cs arbitrary: cg) simp_all

text \<open>
  C9. When \<open>clusterPlanarEmbed\<close> returns false, the graph and the cluster graph of the
  caller are what they were, and \<open>embed\<close> was not called; the construction, the reduction
  and the solving ran on the copies. When it returns true, \<open>embed\<close> was called and the
  caller's cluster graph has its adjacency entries marked available.
\<close>

theorem clusterPlanarEmbed_false_leaves_input:
  assumes "clusterPlanarEmbed K CG G m_augmentation = Some (Inr r)"
  shows "(\<not> returned r \<longrightarrow> res_CG r = CG \<and> res_G r = G \<and> Embed \<notin> set (calls r)) \<and>
         (returned r \<longrightarrow> calls r = [MakeReduced, SolveReduced, Embed] \<and> adjAvailable (res_CG r))"
  using assms
  by (auto simp: clusterPlanarEmbed_def split_def Let_def fold_cAdjEntries_static
      call_makeReduced_def call_solveReduced_def call_embed_def
      split: option.splits sum.splits if_splits)

lemma clusterPlanarEmbed_tri:
  "\<exists>r. clusterPlanarEmbed (K_ex False False) cg_tri triangle None = Some (Inr r) \<and> \<not> returned r"
proof -
  from SyncPlan_new_returns[OF ClusterGraph_ok_tri, of None] obtain SP where
    sp: "SyncPlan_new triangle cg_tri None = Some (Inr SP)" by blast
  show ?thesis
    by (simp add: clusterPlanarEmbed_def K_ex_def sp split_def Let_def
        call_makeReduced_def call_solveReduced_def call_embed_def)
qed

theorem clusterPlanarEmbed_false_leaves_input_witness:
  "\<exists>r. clusterPlanarEmbed (K_ex False False) cg_tri triangle None = Some (Inr r) \<and>
       \<not> returned r \<and> res_CG r = cg_tri \<and> res_G r = triangle \<and> Embed \<notin> set (calls r)"
proof -
  from clusterPlanarEmbed_tri obtain r where
    r: "clusterPlanarEmbed (K_ex False False) cg_tri triangle None = Some (Inr r)" "\<not> returned r"
    by blast
  from clusterPlanarEmbed_false_leaves_input[OF r(1)] r show ?thesis by blast
qed

section \<open>The triangle as an input of the constructor\<close>

lemma Graph_ok_triangle: "Graph_ok triangle"
  unfolding Graph_ok_def
  by (auto simp: triangle_def theNode_def twinNode_def split: if_splits)

lemma crossingEntries_tri: "crossingEntries triangle cg_tri 1 = [Adj 2 False, Adj 1 True]"
  by (simp add: crossingEntries_def is_crossing_def triangle_def cg_tri_def twinNode_def theNode_def)

section \<open>Splitting one perimeter-crossing edge\<close>

lemma splitEdge_edge_fields:
  "source (splitEdge_edge G e A B) = (source G)(edgeIdCount G := B)"
  "target (splitEdge_edge G e A B) = (target G)(e := A, edgeIdCount G := target G e)"
  "edgeIdCount (splitEdge_edge G e A B) = Suc (edgeIdCount G)"
  "nodes (splitEdge_edge G e A B) = nodes G"
  "nodeIdCount (splitEdge_edge G e A B) = nodeIdCount G"
  by (simp_all add: splitEdge_edge_def Let_def)

lemma splitEdge_edge_adjEntries:
  assumes "target G e \<noteq> A" "target G e \<noteq> B" "A \<noteq> B"
  shows "adjEntries (splitEdge_edge G e A B) m =
     (if m = A then adjEntries G A @ [Adj e False]
      else if m = B then adjEntries G B @ [Adj (edgeIdCount G) True]
      else if m = target G e
           then replace_adj (Adj e False) (Adj (edgeIdCount G) False) (adjEntries G m)
      else adjEntries G m)"
  using assms by (auto simp: splitEdge_edge_def Let_def)

text \<open>The entry \<open>a\<close> stands at a node of the cluster, the far end of its edge outside;
  \<open>splitEdge\<close> on its twin appends one entry to \<open>cn\<close> that leads to the node of \<open>a\<close> and
  one to \<open>pn\<close> that leads to the far end.\<close>

lemma splitEdge_twin:
  assumes ne: "cn \<noteq> pn"
    and n: "theNode G a \<noteq> cn" "theNode G a \<noteq> pn"
    and w: "twinNode G a \<noteq> cn" "twinNode G a \<noteq> pn"
    and old: "theEdge a < edgeIdCount G"
  shows "\<exists>x y. adjEntries (splitEdge G (twin a) pn cn) cn = adjEntries G cn @ [x] \<and>
       adjEntries (splitEdge G (twin a) pn cn) pn = adjEntries G pn @ [y] \<and>
       twinNode (splitEdge G (twin a) pn cn) x = theNode G a \<and>
       twinNode (splitEdge G (twin a) pn cn) y = twinNode G a \<and>
       theNode (splitEdge G (twin a) pn cn) x = cn \<and>
       theNode (splitEdge G (twin a) pn cn) y = pn \<and>
       (theEdge x = theEdge a \<or> theEdge x = edgeIdCount G) \<and>
       (theEdge y = theEdge a \<or> theEdge y = edgeIdCount G)"
proof (cases a)
  case (Adj e s)
  have e: "e \<noteq> edgeIdCount G" using old Adj by simp
  show ?thesis
  proof (cases s)
    case True
    then have t: "target G e \<noteq> cn" "target G e \<noteq> pn" and so: "source G e = theNode G a"
      "target G e = twinNode G a"
      using w Adj by (simp_all add: twinNode_def theNode_def)
    have sp: "splitEdge G (twin a) pn cn = splitEdge_edge G e cn pn"
      using Adj True by (simp add: splitEdge_def)
    show ?thesis
      unfolding sp
      apply (rule exI[of _ "Adj e False"], rule exI[of _ "Adj (edgeIdCount G) True"])
      using t ne e so Adj
      by (simp add: splitEdge_edge_adjEntries splitEdge_edge_fields twinNode_def theNode_def)
  next
    case False
    then have t: "target G e \<noteq> cn" "target G e \<noteq> pn" and so: "target G e = theNode G a"
      "source G e = twinNode G a"
      using n Adj by (simp_all add: twinNode_def theNode_def)
    have sp: "splitEdge G (twin a) pn cn = splitEdge_edge G e pn cn"
      using Adj False by (simp add: splitEdge_def)
    show ?thesis
      unfolding sp
      apply (rule exI[of _ "Adj (edgeIdCount G) True"], rule exI[of _ "Adj e False"])
      using t ne e so Adj
      by (simp add: splitEdge_edge_adjEntries splitEdge_edge_fields twinNode_def theNode_def)
  qed
qed

lemma splitEdge_twin_other_edges:
  assumes "theEdge b \<noteq> theEdge a" "theEdge b \<noteq> edgeIdCount G"
  shows "theNode (splitEdge G (twin a) pn cn) b = theNode G b"
    and "twinNode (splitEdge G (twin a) pn cn) b = twinNode G b"
  using assms
  by (cases a; cases b; simp add: splitEdge_def splitEdge_edge_fields twinNode_def theNode_def)+

lemma splitEdge_twin_other_nodes:
  assumes "cn \<noteq> pn" "theNode G a \<noteq> cn" "theNode G a \<noteq> pn" "twinNode G a \<noteq> cn" "twinNode G a \<noteq> pn"
    and "m \<noteq> cn" "m \<noteq> pn" "m \<noteq> theNode G a" "m \<noteq> twinNode G a"
  shows "adjEntries (splitEdge G (twin a) pn cn) m = adjEntries G m"
proof (cases a)
  case (Adj e s)
  have t: "target G e \<noteq> cn" "target G e \<noteq> pn" "target G e \<noteq> m"
    using assms Adj by (cases s; simp add: twinNode_def theNode_def)+
  show ?thesis
    using t assms(1,6,7) Adj
    by (cases s) (simp_all add: splitEdge_def splitEdge_edge_adjEntries)
qed

lemma splitEdge_twin_fields [simp]:
  "edgeIdCount (splitEdge G adj pn cn) = Suc (edgeIdCount G)"
  by (simp add: splitEdge_def splitEdge_edge_fields)

section \<open>The graph stays well formed\<close>

lemma Graph_okD:
  assumes "Graph_ok G"
  shows "n \<in> set (nodes G) \<Longrightarrow> n < nodeIdCount G"
    and "distinct (adjEntries G n)"
    and "a \<in> set (adjEntries G n) \<Longrightarrow> n \<in> set (nodes G)"
    and "a \<in> set (adjEntries G n) \<Longrightarrow> theNode G a = n"
    and "a \<in> set (adjEntries G n) \<Longrightarrow> twinNode G a \<in> set (nodes G)"
    and "a \<in> set (adjEntries G n) \<Longrightarrow> theEdge a < edgeIdCount G"
  using assms unfolding Graph_ok_def by blast+

lemma Graph_okI:
  assumes "\<And>n. n \<in> set (nodes G) \<Longrightarrow> n < nodeIdCount G"
    and "\<And>n. distinct (adjEntries G n)"
    and "\<And>n a. a \<in> set (adjEntries G n) \<Longrightarrow>
          n \<in> set (nodes G) \<and> theNode G a = n \<and> twinNode G a \<in> set (nodes G) \<and>
          theEdge a < edgeIdCount G"
  shows "Graph_ok G"
  using assms unfolding Graph_ok_def by blast

lemma Graph_ok_newNode:
  assumes "Graph_ok G"
  shows "Graph_ok (snd (newNode G))"
proof (rule Graph_okI)
  fix n assume "n \<in> set (nodes (snd (newNode G)))"
  then show "n < nodeIdCount (snd (newNode G))"
    using Graph_okD(1)[OF assms, of n] by (auto simp: newNode_def Let_def)
next
  fix n show "distinct (adjEntries (snd (newNode G)) n)"
    using Graph_okD(2)[OF assms, of n] by (simp add: newNode_def Let_def)
next
  fix n a assume "a \<in> set (adjEntries (snd (newNode G)) n)"
  then have a: "a \<in> set (adjEntries G n)"
    by (simp add: newNode_def Let_def split: if_splits)
  have t: "theNode (snd (newNode G)) a = theNode G a" "twinNode (snd (newNode G)) a = twinNode G a"
    by (simp_all add: newNode_def Let_def theNode_def twinNode_def)
  show "n \<in> set (nodes (snd (newNode G))) \<and> theNode (snd (newNode G)) a = n \<and>
     twinNode (snd (newNode G)) a \<in> set (nodes (snd (newNode G))) \<and>
     theEdge a < edgeIdCount (snd (newNode G))"
    using Graph_okD(3-6)[OF assms a] unfolding t by (simp add: newNode_def Let_def)
qed

lemma Graph_ok_reverseAdjEdges:
  assumes "Graph_ok G"
  shows "Graph_ok (reverseAdjEdges G v)"
proof (rule Graph_okI)
  fix n assume "n \<in> set (nodes (reverseAdjEdges G v))"
  then show "n < nodeIdCount (reverseAdjEdges G v)"
    using Graph_okD(1)[OF assms, of n] by (simp add: reverseAdjEdges_def)
next
  fix n show "distinct (adjEntries (reverseAdjEdges G v) n)"
    using Graph_okD(2)[OF assms] by (auto simp: reverseAdjEdges_def)
next
  fix n a assume "a \<in> set (adjEntries (reverseAdjEdges G v) n)"
  then have a: "a \<in> set (adjEntries G n)"
    by (simp add: reverseAdjEdges_def split: if_splits)
  have t: "theNode (reverseAdjEdges G v) a = theNode G a"
    "twinNode (reverseAdjEdges G v) a = twinNode G a"
    by (simp_all add: reverseAdjEdges_def theNode_def twinNode_def)
  show "n \<in> set (nodes (reverseAdjEdges G v)) \<and> theNode (reverseAdjEdges G v) a = n \<and>
     twinNode (reverseAdjEdges G v) a \<in> set (nodes (reverseAdjEdges G v)) \<and>
     theEdge a < edgeIdCount (reverseAdjEdges G v)"
    using Graph_okD(3-6)[OF assms a] unfolding t by (simp add: reverseAdjEdges_def)
qed

lemma set_replace_adj:
  "set (replace_adj a b xs) \<subseteq> (set xs - {a}) \<union> {b}"
  by (auto simp: replace_adj_def)

lemma distinct_replace_adj:
  "distinct xs \<Longrightarrow> b \<notin> set xs \<Longrightarrow> distinct (replace_adj a b xs)"
  unfolding replace_adj_def by (induction xs) auto

lemma Graph_ok_splitEdge_edge:
  assumes ok: "Graph_ok G" and ne: "A \<noteq> B"
    and A: "A \<in> set (nodes G)" and B: "B \<in> set (nodes G)"
    and e: "e < edgeIdCount G"
    and t: "target G e \<noteq> A" "target G e \<noteq> B" "target G e \<in> set (nodes G)"
    and s: "source G e \<in> set (nodes G)"
  shows "Graph_ok (splitEdge_edge G e A B)"
proof -
  define G' where "G' = splitEdge_edge G e A B"
  define e' where "e' = edgeIdCount G"
  note f = splitEdge_edge_fields[of G e A B, folded G'_def e'_def]
  note l = splitEdge_edge_adjEntries[OF t(1,2) ne, folded G'_def e'_def]
  have ee: "e \<noteq> e'" using e by (simp add: e'_def)
  have fresh: "\<And>m b. b \<in> set (adjEntries G m) \<Longrightarrow> theEdge b \<noteq> e'"
    using Graph_okD(6)[OF ok] unfolding e'_def by fastforce
  have old: "theNode G' b = theNode G b \<and> twinNode G' b \<in> set (nodes G)"
    if b: "b \<in> set (adjEntries G m)" "b \<noteq> Adj e False" for b m
  proof (cases b)
    case (Adj f' s')
    have fe: "f' \<noteq> e'" using fresh[OF b(1)] Adj by simp
    have tw: "twinNode G b \<in> set (nodes G)" by (rule Graph_okD(5)[OF ok b(1)])
    show ?thesis
    proof (cases s')
      case True
      then show ?thesis using Adj fe tw A
        by (simp add: theNode_def twinNode_def f)
    next
      case False
      then have "f' \<noteq> e" using b(2) Adj by simp
      then show ?thesis using Adj fe tw False
        by (simp add: theNode_def twinNode_def f)
    qed
  qed
  have mem: "b \<in> set (adjEntries G m) \<and> b \<noteq> Adj e False \<or>
      (b = Adj e False \<and> m = A) \<or> (b = Adj e' True \<and> m = B) \<or>
      (b = Adj e' False \<and> m = target G e)"
    if b: "b \<in> set (adjEntries G' m)" for b m
  proof -
    have nA: "Adj e False \<notin> set (adjEntries G A)" using Graph_okD(4)[OF ok, of "Adj e False" A] t(1)
      by (auto simp: theNode_def)
    have nB: "Adj e False \<notin> set (adjEntries G B)" using Graph_okD(4)[OF ok, of "Adj e False" B] t(2)
      by (auto simp: theNode_def)
    have nm: "m \<noteq> target G e \<Longrightarrow> Adj e False \<notin> set (adjEntries G m)"
      using Graph_okD(4)[OF ok, of "Adj e False" m] by (auto simp: theNode_def)
    show ?thesis
    proof (cases "m = A")
      case True then show ?thesis using b nA by (auto simp: l)
    next
      case mA: False
      show ?thesis
      proof (cases "m = B")
        case True then show ?thesis using b nB mA by (auto simp: l)
      next
        case mB: False
        show ?thesis
        proof (cases "m = target G e")
          case True
          then have "b \<in> set (replace_adj (Adj e False) (Adj e' False) (adjEntries G m))"
            using b mA mB by (simp add: l)
          then show ?thesis using set_replace_adj[of "Adj e False" "Adj e' False" "adjEntries G m"] True
            by auto
        next
          case False
          then show ?thesis using b mA mB nm by (auto simp: l)
        qed
      qed
    qed
  qed
  have "Graph_ok G'"
  proof (rule Graph_okI)
    fix n assume "n \<in> set (nodes G')"
    then show "n < nodeIdCount G'" using Graph_okD(1)[OF ok, of n] by (simp add: f)
  next
    fix n
    have d: "distinct (adjEntries G n)" for n by (rule Graph_okD(2)[OF ok])
    have nA: "Adj e False \<notin> set (adjEntries G A)" using Graph_okD(4)[OF ok, of "Adj e False" A] t(1)
      by (auto simp: theNode_def)
    have nB: "Adj e' True \<notin> set (adjEntries G B)" using fresh[of "Adj e' True" B] by auto
    have nt: "Adj e' False \<notin> set (adjEntries G n)" for n using fresh[of "Adj e' False" n] by auto
    have r: "distinct (replace_adj (Adj e False) (Adj e' False) (adjEntries G n))" for n
      by (rule distinct_replace_adj[OF d nt])
    show "distinct (adjEntries G' n)"
      using d nA nB r by (auto simp: l)
  next
    fix n a assume a: "a \<in> set (adjEntries G' n)"
    from mem[OF a] consider
      (o) "a \<in> set (adjEntries G n)" "a \<noteq> Adj e False"
      | (x) "a = Adj e False" "n = A"
      | (y) "a = Adj e' True" "n = B"
      | (z) "a = Adj e' False" "n = target G e"
      by blast
    then show "n \<in> set (nodes G') \<and> theNode G' a = n \<and> twinNode G' a \<in> set (nodes G') \<and>
         theEdge a < edgeIdCount G'"
    proof cases
      case o
      from old[OF o] Graph_okD(3,4,6)[OF ok o(1)] show ?thesis by (simp add: f e'_def)
    next
      case x
      then show ?thesis using A s e ee by (simp add: f theNode_def twinNode_def e'_def)
    next
      case y
      then show ?thesis using B t(3) by (simp add: f theNode_def twinNode_def e'_def)
    next
      case z
      then show ?thesis using B t(3) by (simp add: f theNode_def twinNode_def e'_def)
    qed
  qed
  then show ?thesis by (simp add: G'_def)
qed

lemma Graph_ok_splitEdge_twin:
  assumes ok: "Graph_ok G" and ne: "cn \<noteq> pn"
    and cn: "cn \<in> set (nodes G)" and pn: "pn \<in> set (nodes G)"
    and a: "a \<in> set (adjEntries G n)"
    and n: "theNode G a \<noteq> cn" "theNode G a \<noteq> pn"
    and w: "twinNode G a \<noteq> cn" "twinNode G a \<noteq> pn"
  shows "Graph_ok (splitEdge G (twin a) pn cn)"
proof (cases a)
  case (Adj e s)
  have e: "e < edgeIdCount G" using Graph_okD(6)[OF ok a] Adj by simp
  have nn: "theNode G a \<in> set (nodes G)" using Graph_okD(3,4)[OF ok a] by simp
  have ww: "twinNode G a \<in> set (nodes G)" by (rule Graph_okD(5)[OF ok a])
  show ?thesis
  proof (cases s)
    case True
    then have st: "source G e = theNode G a" "target G e = twinNode G a"
      using Adj by (simp_all add: theNode_def twinNode_def)
    have "Graph_ok (splitEdge_edge G e cn pn)"
      by (rule Graph_ok_splitEdge_edge[OF ok ne cn pn e]) (use st n w nn ww in simp_all)
    then show ?thesis using Adj True by (simp add: splitEdge_def)
  next
    case False
    then have st: "target G e = theNode G a" "source G e = twinNode G a"
      using Adj by (simp_all add: theNode_def twinNode_def)
    have "Graph_ok (splitEdge_edge G e pn cn)"
      by (rule Graph_ok_splitEdge_edge[OF ok ne[symmetric] pn cn e]) (use st n w nn ww in simp_all)
    then show ?thesis using Adj False by (simp add: splitEdge_def)
  qed
qed

section \<open>Splitting the perimeter-crossing edges of a cluster, one after the other\<close>

lemma same_edge_cases: "theEdge a = theEdge b \<Longrightarrow> a = b \<or> a = twin b"
  by (cases a; cases b) auto

lemma twinNode_twin [simp]: "twinNode G (twin a) = theNode G a"
  by (cases a) (simp add: twinNode_def)

lemma theNode_twin: "theNode G (twin a) = twinNode G a"
  by (simp add: twinNode_def)

lemma splitEdge_twin_keeps:
  assumes ne: "cn \<noteq> pn"
    and n: "theNode G a \<noteq> cn" "theNode G a \<noteq> pn"
    and w: "twinNode G a \<noteq> cn" "twinNode G a \<noteq> pn"
    and b: "b \<in> set (adjEntries G m)" "theEdge b \<noteq> theEdge a"
  shows "b \<in> set (adjEntries (splitEdge G (twin a) pn cn) m)"
proof (cases a)
  case (Adj e s)
  have t: "target G e \<noteq> cn" "target G e \<noteq> pn"
    using n w Adj by (cases s; simp add: twinNode_def theNode_def)+
  have be: "b \<noteq> Adj e False" using b(2) Adj by auto
  have r: "b \<in> set (replace_adj (Adj e False) y (adjEntries G m))" for y
    using b(1) be by (force simp: replace_adj_def)
  show ?thesis
    using t ne b(1) r Adj
    by (cases s) (auto simp: splitEdge_def splitEdge_edge_adjEntries)
qed

lemma fold_splitEdge_twin:
  assumes ne: "cn \<noteq> pn"
    and ok: "Graph_ok G" and cn: "cn \<in> set (nodes G)" and pn: "pn \<in> set (nodes G)"
    and X: "\<And>a. a \<in> set X \<Longrightarrow> (\<exists>n. a \<in> set (adjEntries G n)) \<and>
          theNode G a \<noteq> cn \<and> theNode G a \<noteq> pn \<and> twinNode G a \<noteq> cn \<and> twinNode G a \<noteq> pn"
    and d: "distinct (map theEdge X)"
  shows "Graph_ok (fold (\<lambda>adj G'. splitEdge G' (twin adj) pn cn) X G) \<and>
     edgeIdCount G \<le> edgeIdCount (fold (\<lambda>adj G'. splitEdge G' (twin adj) pn cn) X G) \<and>
     (\<exists>xs ys.
        adjEntries (fold (\<lambda>adj G'. splitEdge G' (twin adj) pn cn) X G) cn = adjEntries G cn @ xs \<and>
        adjEntries (fold (\<lambda>adj G'. splitEdge G' (twin adj) pn cn) X G) pn = adjEntries G pn @ ys \<and>
        map (twinNode (fold (\<lambda>adj G'. splitEdge G' (twin adj) pn cn) X G)) xs = map (theNode G) X \<and>
        map (twinNode (fold (\<lambda>adj G'. splitEdge G' (twin adj) pn cn) X G)) ys = map (twinNode G) X) \<and>
     (\<forall>b. theEdge b \<notin> theEdge ` set X \<longrightarrow> theEdge b < edgeIdCount G \<longrightarrow>
        theNode (fold (\<lambda>adj G'. splitEdge G' (twin adj) pn cn) X G) b = theNode G b \<and>
        twinNode (fold (\<lambda>adj G'. splitEdge G' (twin adj) pn cn) X G) b = twinNode G b) \<and>
     (\<forall>m. m \<noteq> cn \<longrightarrow> m \<noteq> pn \<longrightarrow> m \<notin> theNode G ` set X \<longrightarrow> m \<notin> twinNode G ` set X \<longrightarrow>
        adjEntries (fold (\<lambda>adj G'. splitEdge G' (twin adj) pn cn) X G) m = adjEntries G m)"
  using ok cn pn X d
proof (induction X arbitrary: G)
  case Nil
  then show ?case by simp
next
  case (Cons a X)
  note ok = Cons.prems(1) and cn = Cons.prems(2) and pn = Cons.prems(3)
  define G1 where "G1 = splitEdge G (twin a) pn cn"
  define G' where "G' = fold (\<lambda>adj G'. splitEdge G' (twin adj) pn cn) X G1"
  have f: "fold (\<lambda>adj G'. splitEdge G' (twin adj) pn cn) (a # X) G = G'"
    by (simp add: G'_def G1_def)
  from Cons.prems(4)[of a] obtain n where a: "a \<in> set (adjEntries G n)"
    and an: "theNode G a \<noteq> cn" "theNode G a \<noteq> pn" and aw: "twinNode G a \<noteq> cn" "twinNode G a \<noteq> pn"
    by auto
  have ae: "theEdge a < edgeIdCount G" by (rule Graph_okD(6)[OF ok a])
  have ok1: "Graph_ok G1"
    unfolding G1_def by (rule Graph_ok_splitEdge_twin[OF ok ne cn pn a an aw])
  have e1: "edgeIdCount G1 = Suc (edgeIdCount G)" by (simp add: G1_def)
  have n1: "nodes G1 = nodes G" by (simp add: G1_def)
  have eq1: "theNode G1 b = theNode G b \<and> twinNode G1 b = twinNode G b"
    if "theEdge b \<noteq> theEdge a" "theEdge b \<noteq> edgeIdCount G" for b
    unfolding G1_def using splitEdge_twin_other_edges[OF that] by simp
  have old: "theEdge a' \<noteq> theEdge a \<and> theEdge a' < edgeIdCount G" if "a' \<in> set X" for a'
  proof -
    from Cons.prems(4)[of a'] that obtain n' where "a' \<in> set (adjEntries G n')" by auto
    then have "theEdge a' < edgeIdCount G" by (rule Graph_okD(6)[OF ok])
    moreover have "theEdge a' \<noteq> theEdge a" using Cons.prems(5) that by (metis distinct.simps(2) image_eqI list.simps(9) list.set_map)
    ultimately show ?thesis by simp
  qed
  have same: "theNode G1 a' = theNode G a' \<and> twinNode G1 a' = twinNode G a'" if "a' \<in> set X" for a'
    using eq1[of a'] old[OF that] by simp
  have X1: "(\<exists>n. a' \<in> set (adjEntries G1 n)) \<and>
          theNode G1 a' \<noteq> cn \<and> theNode G1 a' \<noteq> pn \<and> twinNode G1 a' \<noteq> cn \<and> twinNode G1 a' \<noteq> pn"
    if a': "a' \<in> set X" for a'
  proof -
    from Cons.prems(4)[of a'] a' obtain n' where n': "a' \<in> set (adjEntries G n')"
      and r: "theNode G a' \<noteq> cn" "theNode G a' \<noteq> pn" "twinNode G a' \<noteq> cn" "twinNode G a' \<noteq> pn"
      by auto
    have "a' \<in> set (adjEntries G1 n')"
      unfolding G1_def using splitEdge_twin_keeps[OF ne an aw n'] old[OF a'] by simp
    then show ?thesis using same[OF a'] r by auto
  qed
  have d1: "distinct (map theEdge X)" using Cons.prems(5) by simp
  have cn1: "cn \<in> set (nodes G1)" and pn1: "pn \<in> set (nodes G1)" using cn pn n1 by simp_all
  from Cons.IH[OF ok1 cn1 pn1 X1 d1, folded G'_def]
  have okG': "Graph_ok G'" and le: "edgeIdCount G1 \<le> edgeIdCount G'"
    and ex: "\<exists>xs ys. adjEntries G' cn = adjEntries G1 cn @ xs \<and>
        adjEntries G' pn = adjEntries G1 pn @ ys \<and>
        map (twinNode G') xs = map (theNode G1) X \<and> map (twinNode G') ys = map (twinNode G1) X"
    and ed: "\<And>b. theEdge b \<notin> theEdge ` set X \<Longrightarrow> theEdge b < edgeIdCount G1 \<Longrightarrow>
        theNode G' b = theNode G1 b \<and> twinNode G' b = twinNode G1 b"
    and li: "\<And>m. m \<noteq> cn \<Longrightarrow> m \<noteq> pn \<Longrightarrow> m \<notin> theNode G1 ` set X \<Longrightarrow> m \<notin> twinNode G1 ` set X \<Longrightarrow>
        adjEntries G' m = adjEntries G1 m"
    by blast+
  from ex obtain xs ys where xs: "adjEntries G' cn = adjEntries G1 cn @ xs"
    and ys: "adjEntries G' pn = adjEntries G1 pn @ ys"
    and mx: "map (twinNode G') xs = map (theNode G1) X"
    and my: "map (twinNode G') ys = map (twinNode G1) X" by blast
  from splitEdge_twin[OF ne an aw ae, folded G1_def] obtain x y where
    x: "adjEntries G1 cn = adjEntries G cn @ [x]" and y: "adjEntries G1 pn = adjEntries G pn @ [y]"
    and tx: "twinNode G1 x = theNode G a" and ty: "twinNode G1 y = twinNode G a"
    and ex: "theEdge x = theEdge a \<or> theEdge x = edgeIdCount G"
    and ey: "theEdge y = theEdge a \<or> theEdge y = edgeIdCount G" by blast
  have nx: "theEdge x \<notin> theEdge ` set X" "theEdge y \<notin> theEdge ` set X"
    using ex ey old by fastforce+
  have lx: "theEdge x < edgeIdCount G1" "theEdge y < edgeIdCount G1"
    using ex ey ae e1 by auto
  have tx': "twinNode G' x = theNode G a" using ed[OF nx(1) lx(1)] tx by simp
  have ty': "twinNode G' y = twinNode G a" using ed[OF nx(2) lx(2)] ty by simp
  have m1: "map (theNode G1) X = map (theNode G) X" "map (twinNode G1) X = map (twinNode G) X"
    using same by simp_all
  have c3: "\<exists>xs ys. adjEntries G' cn = adjEntries G cn @ xs \<and> adjEntries G' pn = adjEntries G pn @ ys \<and>
        map (twinNode G') xs = map (theNode G) (a # X) \<and>
        map (twinNode G') ys = map (twinNode G) (a # X)"
    apply (rule exI[of _ "x # xs"], rule exI[of _ "y # ys"])
    using xs ys x y tx' ty' mx my m1 by simp
  have c4: "\<forall>b. theEdge b \<notin> theEdge ` set (a # X) \<longrightarrow> theEdge b < edgeIdCount G \<longrightarrow>
        theNode G' b = theNode G b \<and> twinNode G' b = twinNode G b"
  proof (intro allI impI)
    fix b assume b: "theEdge b \<notin> theEdge ` set (a # X)" "theEdge b < edgeIdCount G"
    then have "theEdge b \<noteq> theEdge a" "theEdge b \<noteq> edgeIdCount G" "theEdge b \<notin> theEdge ` set X"
      "theEdge b < edgeIdCount G1" using e1 by auto
    then show "theNode G' b = theNode G b \<and> twinNode G' b = twinNode G b"
      using eq1[of b] ed[of b] by simp
  qed
  have c5: "\<forall>m. m \<noteq> cn \<longrightarrow> m \<noteq> pn \<longrightarrow> m \<notin> theNode G ` set (a # X) \<longrightarrow>
        m \<notin> twinNode G ` set (a # X) \<longrightarrow> adjEntries G' m = adjEntries G m"
  proof (intro allI impI)
    fix m assume m: "m \<noteq> cn" "m \<noteq> pn" "m \<notin> theNode G ` set (a # X)" "m \<notin> twinNode G ` set (a # X)"
    then have ma: "m \<noteq> theNode G a" "m \<noteq> twinNode G a" by auto
    have i1: "theNode G1 ` set X = theNode G ` set X" "twinNode G1 ` set X = twinNode G ` set X"
      using same by (auto simp: image_iff)
    have "adjEntries G' m = adjEntries G1 m"
      using li[OF m(1,2)] m(3,4) unfolding i1 by simp
    also have "\<dots> = adjEntries G m"
      unfolding G1_def by (rule splitEdge_twin_other_nodes[OF ne an aw m(1,2) ma])
    finally show "adjEntries G' m = adjEntries G m" .
  qed
  have "edgeIdCount G \<le> edgeIdCount G'" using le e1 by simp
  then show ?case unfolding f using okG' c3 c4 c5 by blast
qed

section \<open>The loop over the nodes of a cluster\<close>

text \<open>Two perimeter-crossing entries at nodes of the cluster never belong to the same edge.\<close>

lemma crossing_edges_inj:
  assumes ok: "Graph_ok G"
    and cl: "\<And>n. n \<in> set ns \<Longrightarrow> clusterOf cg n = Some c"
    and a: "a \<in> set (adjEntries G n)" "n \<in> set ns" "is_crossing G cg c a"
    and b: "b \<in> set (adjEntries G m)" "m \<in> set ns" "is_crossing G cg c b"
    and e: "theEdge a = theEdge b"
  shows "a = b"
proof (rule ccontr)
  assume "a \<noteq> b"
  with same_edge_cases[OF e] have "a = twin b" by simp
  then have "twinNode G b = theNode G a" by (simp add: theNode_twin)
  also have "\<dots> = n" by (rule Graph_okD(4)[OF ok a(1)])
  finally have "clusterOf cg (twinNode G b) = Some c" using cl[OF a(2)] by simp
  with b(3) show False by (simp add: is_crossing_def)
qed

lemma crossing_distinct:
  assumes ok: "Graph_ok G" and dn: "distinct ns"
  shows "distinct (concat (map (\<lambda>n. filter (is_crossing G cg c) (adjEntries G n)) ns))"
  using dn
proof (induction ns)
  case Nil
  then show ?case by simp
next
  case (Cons n ns)
  have "a \<notin> set (concat (map (\<lambda>n. filter (is_crossing G cg c) (adjEntries G n)) ns))"
    if a: "a \<in> set (adjEntries G n)" for a
  proof
    assume "a \<in> set (concat (map (\<lambda>n. filter (is_crossing G cg c) (adjEntries G n)) ns))"
    then obtain m where m: "m \<in> set ns" "a \<in> set (adjEntries G m)" by auto
    from Graph_okD(4)[OF ok a] Graph_okD(4)[OF ok m(2)] have "n = m" by simp
    with m(1) Cons.prems show False by simp
  qed
  then show ?case using Cons Graph_okD(2)[OF ok, of n] by auto
qed

lemma crossing_distinct_edges:
  assumes ok: "Graph_ok G" and dn: "distinct ns"
    and cl: "\<And>n. n \<in> set ns \<Longrightarrow> clusterOf cg n = Some c"
  shows "distinct (map theEdge (concat (map (\<lambda>n. filter (is_crossing G cg c) (adjEntries G n)) ns)))"
proof -
  have "inj_on theEdge (set (concat (map (\<lambda>n. filter (is_crossing G cg c) (adjEntries G n)) ns)))"
  proof (rule inj_onI)
    fix a b
    assume a: "a \<in> set (concat (map (\<lambda>n. filter (is_crossing G cg c) (adjEntries G n)) ns))"
      and b: "b \<in> set (concat (map (\<lambda>n. filter (is_crossing G cg c) (adjEntries G n)) ns))"
      and e: "theEdge a = theEdge b"
    from a obtain n where n: "n \<in> set ns" "a \<in> set (adjEntries G n)" "is_crossing G cg c a" by auto
    from b obtain m where m: "m \<in> set ns" "b \<in> set (adjEntries G m)" "is_crossing G cg c b" by auto
    show "a = b" by (rule crossing_edges_inj[OF ok cl n(2,1,3) m(2,1,3) e])
  qed
  then show ?thesis using crossing_distinct[OF ok dn] by (simp add: distinct_map)
qed

lemma rerouteNodes_fold:
  assumes ne: "cn \<noteq> pn"
    and ok: "Graph_ok G" and cn: "cn \<in> set (nodes G)" and pn: "pn \<in> set (nodes G)"
    and dn: "distinct ns"
    and inner: "\<And>n. n \<in> set ns \<Longrightarrow> n \<noteq> cn \<Longrightarrow> n \<noteq> pn \<and> clusterOf cg n = Some c"
    and far: "\<And>n a. n \<in> set ns \<Longrightarrow> n \<noteq> cn \<Longrightarrow> a \<in> set (adjEntries G n) \<Longrightarrow>
          twinNode G a \<noteq> cn \<and> twinNode G a \<noteq> pn"
  shows "rerouteNodes cg c cn pn ns (count, G) =
     (count + length (concat (map (\<lambda>n. filter (is_crossing G cg c) (adjEntries G n))
                          (filter (\<lambda>n. n \<noteq> cn) ns))),
      fold (\<lambda>adj G'. splitEdge G' (twin adj) pn cn)
        (concat (map (\<lambda>n. filter (is_crossing G cg c) (adjEntries G n)) (filter (\<lambda>n. n \<noteq> cn) ns))) G)"
  using ok cn pn dn inner far
proof (induction ns arbitrary: count G)
  case Nil
  then show ?case by simp
next
  case (Cons n ns)
  note ok = Cons.prems(1) and cn = Cons.prems(2) and pn = Cons.prems(3)
  have dn: "distinct ns" and nn: "n \<notin> set ns" using Cons.prems(4) by simp_all
  show ?case
  proof (cases "n = cn")
    case True
    have "rerouteNodes cg c cn pn ns (count, G) =
     (count + length (concat (map (\<lambda>n. filter (is_crossing G cg c) (adjEntries G n))
                          (filter (\<lambda>n. n \<noteq> cn) ns))),
      fold (\<lambda>adj G'. splitEdge G' (twin adj) pn cn)
        (concat (map (\<lambda>n. filter (is_crossing G cg c) (adjEntries G n)) (filter (\<lambda>n. n \<noteq> cn) ns))) G)"
      by (rule Cons.IH[OF ok cn pn dn]) (use Cons.prems(5,6) in auto)
    then show ?thesis using True by simp
  next
    case False
    define X1 where "X1 = filter (is_crossing G cg c) (adjEntries G n)"
    define G1 where "G1 = fold (\<lambda>adj G'. splitEdge G' (twin adj) pn cn) X1 G"
    from Cons.prems(5)[of n] False have n: "n \<noteq> pn" "clusterOf cg n = Some c" by simp_all
    have x1: "(\<exists>n. a \<in> set (adjEntries G n)) \<and>
          theNode G a \<noteq> cn \<and> theNode G a \<noteq> pn \<and> twinNode G a \<noteq> cn \<and> twinNode G a \<noteq> pn"
      if "a \<in> set X1" for a
    proof -
      from that have a: "a \<in> set (adjEntries G n)" by (simp add: X1_def)
      from Graph_okD(4)[OF ok a] Cons.prems(6)[of n a] a False n show ?thesis by auto
    qed
    have cl1: "\<And>m. m \<in> set [n] \<Longrightarrow> clusterOf cg m = Some c" using n by simp
    have d1: "distinct (map theEdge X1)"
      using crossing_distinct_edges[OF ok _ cl1, of "[n]"] by (simp add: X1_def)
    from fold_splitEdge_twin[OF ne ok cn pn x1 d1, folded G1_def]
    have ok1: "Graph_ok G1"
      and ed: "\<And>b. theEdge b \<notin> theEdge ` set X1 \<Longrightarrow> theEdge b < edgeIdCount G \<Longrightarrow>
        theNode G1 b = theNode G b \<and> twinNode G1 b = twinNode G b"
      and li: "\<And>m. m \<noteq> cn \<Longrightarrow> m \<noteq> pn \<Longrightarrow> m \<notin> theNode G ` set X1 \<Longrightarrow> m \<notin> twinNode G ` set X1 \<Longrightarrow>
        adjEntries G1 m = adjEntries G m"
      by blast+
    have n1: "nodes G1 = nodes G" by (simp add: G1_def)
    have u1: "adjEntries G1 m = adjEntries G m" if m: "m \<in> set ns" "m \<noteq> cn" for m
    proof -
      from Cons.prems(5)[of m] m have mm: "m \<noteq> pn" "clusterOf cg m = Some c" by simp_all
      have "m \<notin> theNode G ` set X1"
      proof
        assume "m \<in> theNode G ` set X1"
        then obtain a where "a \<in> set (adjEntries G n)" "m = theNode G a" by (auto simp: X1_def)
        with Graph_okD(4)[OF ok this(1)] have "m = n" by simp
        with m(1) nn show False by simp
      qed
      moreover have "m \<notin> twinNode G ` set X1"
        using mm(2) by (auto simp: X1_def is_crossing_def)
      ultimately show ?thesis using li[OF m(2) mm(1)] by simp
    qed
    have u2: "twinNode G1 a = twinNode G a"
      if m: "m \<in> set ns" "m \<noteq> cn" and a: "a \<in> set (adjEntries G m)" for m a
    proof -
      from Cons.prems(5)[of m] m have mm: "clusterOf cg m = Some c" by simp
      have "theEdge a \<notin> theEdge ` set X1"
      proof
        assume "theEdge a \<in> theEdge ` set X1"
        then obtain b where b: "b \<in> set (adjEntries G n)" "is_crossing G cg c b" "theEdge a = theEdge b"
          by (auto simp: X1_def)
        from same_edge_cases[OF b(3)] show False
        proof
          assume "a = b"
          with Graph_okD(4)[OF ok a] Graph_okD(4)[OF ok b(1)] have "m = n" by simp
          with m(1) nn show False by simp
        next
          assume "a = twin b"
          then have "twinNode G b = theNode G a" by (simp add: theNode_twin)
          with Graph_okD(4)[OF ok a] have "twinNode G b = m" by simp
          with b(2) mm show False by (simp add: is_crossing_def)
        qed
      qed
      then show ?thesis using ed[of a] Graph_okD(6)[OF ok a] by simp
    qed
    have cr: "filter (is_crossing G1 cg c) (adjEntries G1 m) = filter (is_crossing G cg c) (adjEntries G m)"
      if m: "m \<in> set ns" "m \<noteq> cn" for m
      unfolding u1[OF m]
      by (rule filter_cong[OF refl]) (simp add: is_crossing_def u2[OF m])
    have X': "concat (map (\<lambda>n. filter (is_crossing G1 cg c) (adjEntries G1 n)) (filter (\<lambda>n. n \<noteq> cn) ns)) =
        concat (map (\<lambda>n. filter (is_crossing G cg c) (adjEntries G n)) (filter (\<lambda>n. n \<noteq> cn) ns))"
      by (rule arg_cong[where f = concat], rule map_cong[OF refl]) (simp add: cr)
    have IH: "rerouteNodes cg c cn pn ns (count + length X1, G1) =
     (count + length X1 + length (concat (map (\<lambda>n. filter (is_crossing G1 cg c) (adjEntries G1 n))
                          (filter (\<lambda>n. n \<noteq> cn) ns))),
      fold (\<lambda>adj G'. splitEdge G' (twin adj) pn cn)
        (concat (map (\<lambda>n. filter (is_crossing G1 cg c) (adjEntries G1 n)) (filter (\<lambda>n. n \<noteq> cn) ns))) G1)"
    proof (rule Cons.IH[OF ok1 _ _ dn])
      show "cn \<in> set (nodes G1)" "pn \<in> set (nodes G1)" using cn pn n1 by simp_all
      show "\<And>m. m \<in> set ns \<Longrightarrow> m \<noteq> cn \<Longrightarrow> m \<noteq> pn \<and> clusterOf cg m = Some c"
        using Cons.prems(5) by simp
      fix m a assume m: "m \<in> set ns" "m \<noteq> cn" and "a \<in> set (adjEntries G1 m)"
      then have a: "a \<in> set (adjEntries G m)" using u1[OF m] by simp
      from Cons.prems(6)[of m a] m a have "twinNode G a \<noteq> cn \<and> twinNode G a \<noteq> pn" by simp
      then show "twinNode G1 a \<noteq> cn \<and> twinNode G1 a \<noteq> pn" using u2[OF m a] by simp
    qed
    have "rerouteNodes cg c cn pn (n # ns) (count, G) =
        rerouteNodes cg c cn pn ns (count + length X1, G1)"
      using False by (simp add: Let_def X1_def G1_def)
    then show ?thesis unfolding IH X' using False by (simp add: X1_def G1_def)
  qed
qed

section \<open>The pipe of one cluster\<close>

lemma initCluster_graph:
  assumes s: "initCluster c fc_it st = Inr st'"
  shows "cs_G st' =
     (let r = rerouteNodes (cs_cg st') c (nodeIdCount (cs_G st)) (Suc (nodeIdCount (cs_G st)))
                (cnodes (cs_cg st') c) (0, snd (newNode (snd (newNode (cs_G st)))))
      in if fst r = 0 then snd r else reverseAdjEdges (snd r) (Suc (nodeIdCount (cs_G st))))"
proof -
  from initCluster_InrD[OF s] obtain p where p: "parent (cs_cg st) c = Some p"
    and i: "fc_it < length (cs_op st)" and x: "fc_index (rev (cs_op st) ! fc_it) = int c"
    and cg: "cs_cg st' = reassignNode (reassignNode (nodeAdded (nodeAdded (cs_cg st) (nodeIdCount (cs_G st)))
         (Suc (nodeIdCount (cs_G st)))) (nodeIdCount (cs_G st)) c) (Suc (nodeIdCount (cs_G st))) p"
    by blast
  show ?thesis
    using s p i x unfolding cg initCluster_def
    by (auto simp: Let_def split_def newNode_def matchNodes_def split: if_splits)
qed

lemma newNode2_simps:
  "adjEntries (snd (newNode (snd (newNode G)))) m =
     (if m = nodeIdCount G \<or> m = Suc (nodeIdCount G) then [] else adjEntries G m)"
  "theNode (snd (newNode (snd (newNode G)))) a = theNode G a"
  "twinNode (snd (newNode (snd (newNode G)))) a = twinNode G a"
  "nodes (snd (newNode (snd (newNode G)))) = nodes G @ [nodeIdCount G, Suc (nodeIdCount G)]"
  "edgeIdCount (snd (newNode (snd (newNode G)))) = edgeIdCount G"
  by (simp_all add: newNode_def Let_def theNode_def twinNode_def)

lemma initCluster_bijection:
  assumes s: "initCluster c fc_it st = Inr st'"
    and ok: "Graph_ok (cs_G st)"
    and k: "cg_consistent (nodes (cs_G st)) (cs_cg st)"
    and c: "c \<in> set (clusters (cs_cg st))" "c \<noteq> rootCluster (cs_cg st)"
    and pc: "parent (cs_cg st) c \<noteq> Some c"
  shows "Graph_ok (cs_G st') \<and>
     cs_G st' =
       (if crossingEntries (cs_G st) (cs_cg st) c = []
        then snd (newNode (snd (newNode (cs_G st))))
        else reverseAdjEdges
          (fold (\<lambda>adj G'. splitEdge G' (twin adj) (Suc (nodeIdCount (cs_G st))) (nodeIdCount (cs_G st)))
             (crossingEntries (cs_G st) (cs_cg st) c) (snd (newNode (snd (newNode (cs_G st))))))
          (Suc (nodeIdCount (cs_G st)))) \<and>
     map (twinNode (cs_G st')) (adjEntries (cs_G st') (nodeIdCount (cs_G st))) =
       map (theNode (cs_G st)) (crossingEntries (cs_G st) (cs_cg st) c) \<and>
     map (twinNode (cs_G st')) (rev (adjEntries (cs_G st') (Suc (nodeIdCount (cs_G st))))) =
       map (twinNode (cs_G st)) (crossingEntries (cs_G st) (cs_cg st) c)"
proof -
  define G where "G = cs_G st"
  define cg where "cg = cs_cg st"
  define cn where "cn = nodeIdCount G"
  define pn where "pn = Suc cn"
  define G2 where "G2 = snd (newNode (snd (newNode G)))"
  define X where "X = crossingEntries G cg c"
  note ok = ok[folded G_def] and k = k[folded G_def cg_def] and c = c[folded cg_def]
  from initCluster_InrD[OF s] obtain p where p: "parent cg c = Some p"
    and cg4: "cs_cg st' = reassignNode (reassignNode (nodeAdded (nodeAdded cg cn) pn) cn c) pn p"
    unfolding G_def cg_def cn_def pn_def by blast
  define cg4 where "cg4 = cs_cg st'"
  have pc': "p \<noteq> c" using pc p by (simp add: cg_def)
  have ne: "cn \<noteq> pn" by (simp add: pn_def)
  have old: "n < cn" if "n \<in> set (nodes G)" for n
    using Graph_okD(1)[OF ok that] by (simp add: cn_def)
  have inner: "n \<in> set (nodes G) \<and> clusterOf cg n = Some c" if "n \<in> set (cnodes cg c)" for n
    using cg_consistentD(2,3)[OF k c(1) that] by simp
  have cno: "cnodes cg4 c = cnodes cg c @ [cn]"
    unfolding cg4_def cg4 using c(2) pc' ne
    by (simp add: reassignNode_def nodeAdded_def cnodes_assignNode cnodes_unassignNode
        clusterOf_assignNode clusterOf_unassignNode)
  have clo: "clusterOf cg4 v = clusterOf cg v" if "v \<noteq> cn" "v \<noteq> pn" for v
    unfolding cg4_def cg4 using that by (simp add: clusterOf_reassignNode clusterOf_nodeAdded)
  have cnn: "cn \<notin> set (cnodes cg c)" using inner old by fastforce
  have fl: "filter (\<lambda>n. n \<noteq> cn) (cnodes cg4 c) = cnodes cg c"
    unfolding cno using cnn by (auto simp: filter_id_conv)
  note n2 = newNode2_simps[of G, folded G2_def cn_def, folded pn_def]
  have ok2: "Graph_ok G2" unfolding G2_def by (intro Graph_ok_newNode ok)
  have in2: "cn \<in> set (nodes G2)" "pn \<in> set (nodes G2)" by (simp_all add: n2)
  have l2: "adjEntries G2 n = adjEntries G n" if "n \<in> set (cnodes cg c)" for n
    using inner[OF that] old[of n] by (auto simp: n2 pn_def)
  have far: "twinNode G a \<noteq> cn \<and> twinNode G a \<noteq> pn" if "a \<in> set (adjEntries G n)" for a n
    using old[OF Graph_okD(5)[OF ok that]] by (simp add: pn_def)
  have cr2: "filter (is_crossing G2 cg4 c) (adjEntries G2 n) = filter (is_crossing G cg c) (adjEntries G n)"
    if n: "n \<in> set (cnodes cg c)" for n
    unfolding l2[OF n]
  proof (rule filter_cong[OF refl])
    fix a assume "a \<in> set (adjEntries G n)"
    from far[OF this] show "is_crossing G2 cg4 c a = is_crossing G cg c a"
      by (simp add: is_crossing_def n2 clo)
  qed
  have X2: "concat (map (\<lambda>n. filter (is_crossing G2 cg4 c) (adjEntries G2 n))
               (filter (\<lambda>n. n \<noteq> cn) (cnodes cg4 c))) = X"
    unfolding fl X_def crossingEntries_def
    by (rule arg_cong[where f = concat], rule map_cong[OF refl]) (simp add: cr2)
  have rr: "rerouteNodes cg4 c cn pn (cnodes cg4 c) (0, G2) =
      (length X, fold (\<lambda>adj G'. splitEdge G' (twin adj) pn cn) X G2)"
  proof -
    have "rerouteNodes cg4 c cn pn (cnodes cg4 c) (0, G2) =
     (0 + length (concat (map (\<lambda>n. filter (is_crossing G2 cg4 c) (adjEntries G2 n))
                          (filter (\<lambda>n. n \<noteq> cn) (cnodes cg4 c)))),
      fold (\<lambda>adj G'. splitEdge G' (twin adj) pn cn)
        (concat (map (\<lambda>n. filter (is_crossing G2 cg4 c) (adjEntries G2 n))
           (filter (\<lambda>n. n \<noteq> cn) (cnodes cg4 c)))) G2)"
    proof (rule rerouteNodes_fold[OF ne ok2 in2])
      show "distinct (cnodes cg4 c)"
        unfolding cno using cg_consistentD(1)[OF k c(1)] cnn by simp
      fix n assume n: "n \<in> set (cnodes cg4 c)" "n \<noteq> cn"
      then have n': "n \<in> set (cnodes cg c)" by (simp add: cno)
      from inner[OF n'] old[of n] have np: "n \<noteq> pn" by (auto simp: pn_def)
      with inner[OF n'] n(2) show "n \<noteq> pn \<and> clusterOf cg4 n = Some c" by (simp add: clo)
      fix a assume "a \<in> set (adjEntries G2 n)"
      then have "a \<in> set (adjEntries G n)" using l2[OF n'] by simp
      from far[OF this] show "twinNode G2 a \<noteq> cn \<and> twinNode G2 a \<noteq> pn" by (simp add: n2)
    qed
    then show ?thesis unfolding X2 by simp
  qed
  define G3 where "G3 = fold (\<lambda>adj G'. splitEdge G' (twin adj) pn cn) X G2"
  have G4: "cs_G st' = (if X = [] then G3 else reverseAdjEdges G3 pn)"
    using initCluster_graph[OF s, folded G_def, folded cn_def, folded pn_def cg4_def G2_def]
    by (simp add: rr Let_def G3_def)
  have x2: "(\<exists>n. a \<in> set (adjEntries G2 n)) \<and>
          theNode G2 a \<noteq> cn \<and> theNode G2 a \<noteq> pn \<and> twinNode G2 a \<noteq> cn \<and> twinNode G2 a \<noteq> pn"
    if "a \<in> set X" for a
  proof -
    from that obtain n where n: "n \<in> set (cnodes cg c)" "a \<in> set (adjEntries G n)"
      by (auto simp: X_def crossingEntries_def)
    from inner[OF n(1)] old[of n] have "n \<noteq> cn" "n \<noteq> pn" by (auto simp: pn_def)
    then show ?thesis using far[OF n(2)] Graph_okD(4)[OF ok n(2)] n(2) l2[OF n(1)]
      by (auto simp: n2)
  qed
  have dX: "distinct (map theEdge X)"
    unfolding X_def crossingEntries_def
    by (rule crossing_distinct_edges[OF ok cg_consistentD(1)[OF k c(1)]]) (simp add: inner)
  from fold_splitEdge_twin[OF ne ok2 in2 x2 dX, folded G3_def]
  obtain xs ys where ok3: "Graph_ok G3"
    and xs: "adjEntries G3 cn = xs" and ys: "adjEntries G3 pn = ys"
    and mx: "map (twinNode G3) xs = map (theNode G2) X"
    and my: "map (twinNode G3) ys = map (twinNode G2) X"
    by (auto simp: n2)
  have m2: "map (theNode G2) X = map (theNode G) X" "map (twinNode G2) X = map (twinNode G) X"
    by (simp_all add: n2)
  have yn: "X = [] \<Longrightarrow> ys = []" using my by auto
  have t4: "twinNode (cs_G st') = twinNode G3"
    by (rule ext) (simp add: G4 reverseAdjEdges_def twinNode_def theNode_def)
  have a4: "adjEntries (cs_G st') cn = xs" "rev (adjEntries (cs_G st') pn) = ys"
    using xs ys yn ne by (auto simp: G4 reverseAdjEdges_def)
  have g3: "X = [] \<Longrightarrow> G3 = G2" by (simp add: G3_def)
  have "Graph_ok (cs_G st')"
    unfolding G4 using ok3 Graph_ok_reverseAdjEdges[OF ok3] by simp
  moreover have "cs_G st' = (if X = [] then G2 else reverseAdjEdges G3 pn)"
    using G4 g3 by simp
  moreover have "map (twinNode (cs_G st')) (adjEntries (cs_G st') cn) = map (theNode G) X"
    unfolding a4 t4 using mx m2 by simp
  moreover have "map (twinNode (cs_G st')) (rev (adjEntries (cs_G st') pn)) = map (twinNode G) X"
    unfolding a4 t4 using my m2 by simp
  ultimately show ?thesis
    unfolding X_def G3_def G2_def pn_def cn_def G_def cg_def by blast
qed

section \<open>The states in which the iterations of the constructor start\<close>

lemma initClusters_upto_rule:
  assumes "initClusters (cs @ [root]) fc_it st = Inr st'"
    and "rootCluster (cs_cg st) = root" and "root \<notin> set cs"
    and "I 0 st"
    and "\<And>k s s'. k < length cs \<Longrightarrow> I k s \<Longrightarrow> initCluster (cs ! k) (fc_it + k) s = Inr s' \<Longrightarrow> I (Suc k) s'"
  shows "initClusters_upto cs fc_it st = Inr st' \<and> I (length cs) st' \<and>
     (\<forall>k<length cs. \<exists>s s'. initClusters_upto (take k cs) fc_it st = Inr s \<and>
        initCluster (cs ! k) (fc_it + k) s = Inr s' \<and> I k s)"
  using assms
proof (induction cs arbitrary: fc_it st I)
  case Nil
  then show ?case by (auto split: if_splits)
next
  case (Cons c cs)
  from Cons.prems(2,3) have ne: "c \<noteq> rootCluster (cs_cg st)" by auto
  with Cons.prems(1) obtain st1 where s1: "initCluster c fc_it st = Inr st1"
    and r: "initClusters (cs @ [root]) (Suc fc_it) st1 = Inr st'"
    by (auto split: sum.splits)
  have i1: "I (Suc 0) st1" using Cons.prems(5)[of 0 st st1] Cons.prems(4) s1 by simp
  have rt: "rootCluster (cs_cg st1) = root" using initCluster_cg_static(1)[OF s1] Cons.prems(2) by simp
  have IH: "initClusters_upto cs (Suc fc_it) st1 = Inr st' \<and> (\<lambda>k. I (Suc k)) (length cs) st' \<and>
     (\<forall>k<length cs. \<exists>s s'. initClusters_upto (take k cs) (Suc fc_it) st1 = Inr s \<and>
        initCluster (cs ! k) (Suc fc_it + k) s = Inr s' \<and> (\<lambda>k. I (Suc k)) k s)"
  proof (rule Cons.IH[OF r rt])
    show "root \<notin> set cs" using Cons.prems(3) by simp
    show "I (Suc 0) st1" by (rule i1)
    fix k s s'
    assume "k < length cs" "I (Suc k) s" "initCluster (cs ! k) (Suc fc_it + k) s = Inr s'"
    then show "I (Suc (Suc k)) s'" using Cons.prems(5)[of "Suc k" s s'] by simp
  qed
  have "\<exists>s s'. initClusters_upto (take k (c # cs)) fc_it st = Inr s \<and>
        initCluster ((c # cs) ! k) (fc_it + k) s = Inr s' \<and> I k s" if k: "k < length (c # cs)" for k
  proof (cases k)
    case 0
    then show ?thesis using s1 Cons.prems(4) by simp
  next
    case (Suc j)
    with k have "j < length cs" by simp
    with IH obtain s s' where "initClusters_upto (take j cs) (Suc fc_it) st1 = Inr s"
      "initCluster (cs ! j) (Suc fc_it + j) s = Inr s'" "I (Suc j) s" by blast
    then show ?thesis using Suc s1 by simp
  qed
  then show ?case using IH s1 by simp
qed

lemma postOrder_parent_other:
  assumes pok: "postOrder_ok cg" and i: "i < length (postOrder cg) - 1"
  shows "parent cg (postOrder cg ! i) \<noteq> Some (postOrder cg ! i)"
proof
  assume e: "parent cg (postOrder cg ! i) = Some (postOrder cg ! i)"
  from postOrder_parent_later[OF pok i] e
  have "postOrder cg ! i \<in> set (drop (Suc i) (postOrder cg))" by auto
  then obtain j where j: "j < length (postOrder cg) - Suc i" "postOrder cg ! (Suc i + j) = postOrder cg ! i"
    by (auto simp: in_set_conv_nth)
  from pok have "distinct (postOrder cg)" by (simp add: postOrder_ok_def)
  then have "Suc i + j = i" using j i by (simp add: nth_eq_iff_index_eq)
  then show False by simp
qed

lemma initClusters_ctor_states:
  assumes ok: "ClusterGraph_ok g cg" and gok: "Graph_ok g"
    and s: "initClusters (postOrder cg) 0 (ctor_init g cg) = Inr st1"
  shows "initClusters_upto (butlast (postOrder cg)) 0 (ctor_init g cg) = Inr st1 \<and>
     Graph_ok (cs_G st1) \<and>
     (\<forall>i<length (postOrder cg) - 1. \<exists>s s'.
        initClusters_upto (take i (postOrder cg)) 0 (ctor_init g cg) = Inr s \<and>
        initCluster (postOrder cg ! i) i s = Inr s' \<and>
        Graph_ok (cs_G s) \<and> cg_consistent (nodes (cs_G s)) (cs_cg s) \<and>
        postOrder cg ! i \<in> set (clusters (cs_cg s)) \<and> postOrder cg ! i \<noteq> rootCluster (cs_cg s) \<and>
        parent (cs_cg s) (postOrder cg ! i) \<noteq> Some (postOrder cg ! i))"
proof -
  from ok have pok: "postOrder_ok cg" and k0: "cg_consistent (nodes g) cg"
    and f0: "\<forall>n\<in>set (nodes g). n < nodeIdCount g"
    by (simp_all add: ClusterGraph_ok_def)
  note po = postOrder_okD[OF pok]
  define cs where "cs = butlast (postOrder cg)"
  have lcs: "length cs = length (postOrder cg) - 1" by (simp add: cs_def)
  have nth: "cs ! i = postOrder cg ! i" if "i < length cs" for i
    using that by (simp add: cs_def nth_butlast)
  have tk: "take i cs = take i (postOrder cg)" if "i < length cs" for i
    using that by (simp add: cs_def take_butlast)
  define I where "I = (\<lambda>(k::nat) (s::ctor_state). Graph_ok (cs_G s) \<and>
     cg_consistent (nodes (cs_G s)) (cs_cg s) \<and>
     (\<forall>n\<in>set (nodes (cs_G s)). n < nodeIdCount (cs_G s)) \<and>
     rootCluster (cs_cg s) = rootCluster cg \<and> parent (cs_cg s) = parent cg \<and>
     clusters (cs_cg s) = clusters cg)"
  have s': "initClusters (cs @ [rootCluster cg]) 0 (ctor_init g cg) = Inr st1"
    using s po(1) by (simp add: cs_def)
  have fact: "cs ! i \<in> set (clusters cg) \<and> cs ! i \<noteq> rootCluster cg \<and>
      parent cg (cs ! i) \<noteq> Some (cs ! i) \<and> (\<forall>q. parent cg (cs ! i) = Some q \<longrightarrow> q \<in> set (clusters cg))"
    if i: "i < length cs" for i
  proof -
    have m: "cs ! i \<in> set (butlast (postOrder cg))" using i by (simp add: cs_def)
    have "parent cg (cs ! i) \<noteq> Some (cs ! i)"
      using postOrder_parent_other[OF pok, of i] i by (simp add: nth lcs)
    then show ?thesis using m po(2,3,5) by auto
  qed
  have r: "initClusters_upto cs 0 (ctor_init g cg) = Inr st1 \<and> I (length cs) st1 \<and>
     (\<forall>k<length cs. \<exists>s s'. initClusters_upto (take k cs) 0 (ctor_init g cg) = Inr s \<and>
        initCluster (cs ! k) (0 + k) s = Inr s' \<and> I k s)"
  proof (rule initClusters_upto_rule[OF s'])
    show "rootCluster (cs_cg (ctor_init g cg)) = rootCluster cg" by simp
    show "rootCluster cg \<notin> set cs" using po(2) by (simp add: cs_def)
    show "I 0 (ctor_init g cg)" using gok k0 f0 by (simp add: I_def)
    fix k s s'
    assume k: "k < length cs" and i: "I k s" and st: "initCluster (cs ! k) (0 + k) s = Inr s'"
    from i have a: "Graph_ok (cs_G s)" "cg_consistent (nodes (cs_G s)) (cs_cg s)"
      "\<forall>n\<in>set (nodes (cs_G s)). n < nodeIdCount (cs_G s)"
      "rootCluster (cs_cg s) = rootCluster cg" "parent (cs_cg s) = parent cg"
      "clusters (cs_cg s) = clusters cg" by (simp_all add: I_def)
    note f = fact[OF k]
    have f': "cs ! k \<in> set (clusters (cs_cg s))" "cs ! k \<noteq> rootCluster (cs_cg s)"
      "parent (cs_cg s) (cs ! k) \<noteq> Some (cs ! k)"
      using f a(4,5,6) by simp_all
    have g: "Graph_ok (cs_G s')"
      by (rule conjunct1[OF initCluster_bijection[OF st a(1,2) f']])
    have c: "cg_consistent (nodes (cs_G s')) (cs_cg s') \<and>
         (\<forall>n\<in>set (nodes (cs_G s')). n < nodeIdCount (cs_G s'))"
      by (rule initCluster_consistent[OF st a(2,3)]) (use f a(4,5,6) po(4) in simp_all)
    show "I (Suc k) s'"
      using g c initCluster_cg_static[OF st] a(4,5,6) by (simp add: I_def)
  qed
  have "\<exists>s s'. initClusters_upto (take i (postOrder cg)) 0 (ctor_init g cg) = Inr s \<and>
        initCluster (postOrder cg ! i) i s = Inr s' \<and>
        Graph_ok (cs_G s) \<and> cg_consistent (nodes (cs_G s)) (cs_cg s) \<and>
        postOrder cg ! i \<in> set (clusters (cs_cg s)) \<and> postOrder cg ! i \<noteq> rootCluster (cs_cg s) \<and>
        parent (cs_cg s) (postOrder cg ! i) \<noteq> Some (postOrder cg ! i)"
    if i: "i < length (postOrder cg) - 1" for i
  proof -
    from i have i': "i < length cs" by (simp add: lcs)
    with r obtain s s' where a: "initClusters_upto (take i cs) 0 (ctor_init g cg) = Inr s"
      "initCluster (cs ! i) (0 + i) s = Inr s'" "I i s" by blast
    show ?thesis
      apply (rule exI[of _ s], rule exI[of _ s'])
      using a fact[OF i'] by (simp add: tk[OF i'] nth[OF i'] I_def)
  qed
  then show ?thesis using r by (simp add: cs_def I_def)
qed

lemma initClusters_upto_frame:
  assumes "initClusters_upto cs fc_it st = Inr s"
  shows "nodeIdCount (cs_G s) = nodeIdCount (cs_G st) + 2 * length cs"
    and "parent (cs_cg s) = parent (cs_cg st)"
  using assms
proof (induction cs arbitrary: fc_it st)
  case Nil
  {
    case 1 then show ?case by simp
  next
    case 2 then show ?case by simp
  }
next
  case (Cons c cs)
  {
    case 1
    then obtain st1 where s1: "initCluster c fc_it st = Inr st1"
      and r: "initClusters_upto cs (Suc fc_it) st1 = Inr s"
      by (auto split: sum.splits)
    from initCluster_InrD[OF s1] have "nodeIdCount (cs_G st1) = Suc (Suc (nodeIdCount (cs_G st)))"
      by blast
    with Cons.IH(1)[OF r] show ?case by simp
  next
    case 2
    then obtain st1 where s1: "initCluster c fc_it st = Inr st1"
      and r: "initClusters_upto cs (Suc fc_it) st1 = Inr s"
      by (auto split: sum.splits)
    from Cons.IH(2)[OF r] initCluster_cg_static(2)[OF s1] show ?case by simp
  }
qed

section \<open>The order of the adjacency entries of a pipe\<close>

text \<open>
  C6. Let the input graph and its clustering be well formed. The iteration for the
  \<open>i\<close>-th cluster in post-order starts in the state the first \<open>i\<close> iterations leave, and
  it returns. Let \<open>X\<close> be the perimeter-crossing adjacency entries of the cluster in that
  state, in the order in which the loops over the nodes of the cluster and over their
  entries meet them. The iteration calls \<open>splitEdge\<close> on the twins of the entries of \<open>X\<close>
  in this order and then \<open>reverseAdjEdges(pn)\<close>, the latter exactly when \<open>X\<close> is not
  empty, and registers the pipe \<open>(cn, pn)\<close>. In the state it returns, \<open>cn\<close> and \<open>pn\<close> have
  as many adjacency entries as \<open>X\<close> has, each of them once; the \<open>j\<close>-th entry of \<open>cn\<close>
  leads to the node of the \<open>j\<close>-th entry of \<open>X\<close>, inside the cluster, and the \<open>j\<close>-th
  entry of \<open>pn\<close> from the end leads to the far end of the same entry of \<open>X\<close>, outside: the
  order of \<open>pn\<close> is the reverse of the order of \<open>cn\<close>, and the bijection of the pipe pairs
  the two halves of every split edge. When the loop has ended, every pipe still joins
  two nodes of the same degree whose entries the bijection pairs one to one.
\<close>

theorem SyncPlan_new_pipe_bijection:
  assumes "ClusterGraph_ok g cg" and "Graph_ok g"
  shows "\<exists>st1.
     initClusters (postOrder cg) 0 (ctor_init g cg) = Inr st1 \<and>
     initClusters_upto (butlast (postOrder cg)) 0 (ctor_init g cg) = Inr st1 \<and>
     (\<forall>i<length (postOrder cg) - 1. \<exists>s s'.
        initClusters_upto (take i (postOrder cg)) 0 (ctor_init g cg) = Inr s \<and>
        initCluster (postOrder cg ! i) i s = Inr s' \<and>
        (let cn = nodeIdCount (cs_G s); pn = Suc cn;
             X = crossingEntries (cs_G s) (cs_cg s) (postOrder cg ! i)
         in pipes (cs_matchings s') = pipes (cs_matchings s) @ [(cn, pn)] \<and>
            cs_G s' =
              (if X = [] then snd (newNode (snd (newNode (cs_G s))))
               else reverseAdjEdges
                 (fold (\<lambda>adj G'. splitEdge G' (twin adj) pn cn) X (snd (newNode (snd (newNode (cs_G s))))))
                 pn) \<and>
            getIncidentEdgeBijection (cs_G s') (cs_matchings s') cn =
              Inr (zip (adjEntries (cs_G s') cn) (rev (adjEntries (cs_G s') pn))) \<and>
            degree (cs_G s') cn = length X \<and> degree (cs_G s') pn = length X \<and>
            distinct (adjEntries (cs_G s') cn) \<and> distinct (adjEntries (cs_G s') pn) \<and>
            map (twinNode (cs_G s')) (adjEntries (cs_G s') cn) = map (theNode (cs_G s)) X \<and>
            map (twinNode (cs_G s')) (rev (adjEntries (cs_G s') pn)) = map (twinNode (cs_G s)) X)) \<and>
     (\<forall>i<length (postOrder cg) - 1.
        (let cn = nodeIdCount g + 2 * i; pn = Suc cn
         in getIncidentEdgeBijection (cs_G st1) (cs_matchings st1) cn =
              Inr (zip (adjEntries (cs_G st1) cn) (rev (adjEntries (cs_G st1) pn))) \<and>
            degree (cs_G st1) cn = degree (cs_G st1) pn \<and>
            distinct (adjEntries (cs_G st1) cn) \<and> distinct (adjEntries (cs_G st1) pn)))"
proof -
  from assms(1) have pok: "postOrder_ok cg" by (simp add: ClusterGraph_ok_def)
  from initClusters_ctor_succeeds[OF pok] obtain st1 where
    s: "initClusters (postOrder cg) 0 (ctor_init g cg) = Inr st1" by blast
  note gr = initClusters_ctor_gray[OF pok s]
  from initClusters_ctor_states[OF assms s]
  have up: "initClusters_upto (butlast (postOrder cg)) 0 (ctor_init g cg) = Inr st1"
    and ok1: "Graph_ok (cs_G st1)"
    and it: "\<And>i. i < length (postOrder cg) - 1 \<Longrightarrow> \<exists>s s'.
        initClusters_upto (take i (postOrder cg)) 0 (ctor_init g cg) = Inr s \<and>
        initCluster (postOrder cg ! i) i s = Inr s' \<and>
        Graph_ok (cs_G s) \<and> cg_consistent (nodes (cs_G s)) (cs_cg s) \<and>
        postOrder cg ! i \<in> set (clusters (cs_cg s)) \<and> postOrder cg ! i \<noteq> rootCluster (cs_cg s) \<and>
        parent (cs_cg s) (postOrder cg ! i) \<noteq> Some (postOrder cg ! i)"
    by blast+
  have per: "\<exists>s s'.
        initClusters_upto (take i (postOrder cg)) 0 (ctor_init g cg) = Inr s \<and>
        initCluster (postOrder cg ! i) i s = Inr s' \<and>
        (let cn = nodeIdCount (cs_G s); pn = Suc cn;
             X = crossingEntries (cs_G s) (cs_cg s) (postOrder cg ! i)
         in pipes (cs_matchings s') = pipes (cs_matchings s) @ [(cn, pn)] \<and>
            cs_G s' =
              (if X = [] then snd (newNode (snd (newNode (cs_G s))))
               else reverseAdjEdges
                 (fold (\<lambda>adj G'. splitEdge G' (twin adj) pn cn) X (snd (newNode (snd (newNode (cs_G s))))))
                 pn) \<and>
            getIncidentEdgeBijection (cs_G s') (cs_matchings s') cn =
              Inr (zip (adjEntries (cs_G s') cn) (rev (adjEntries (cs_G s') pn))) \<and>
            degree (cs_G s') cn = length X \<and> degree (cs_G s') pn = length X \<and>
            distinct (adjEntries (cs_G s') cn) \<and> distinct (adjEntries (cs_G s') pn) \<and>
            map (twinNode (cs_G s')) (adjEntries (cs_G s') cn) = map (theNode (cs_G s)) X \<and>
            map (twinNode (cs_G s')) (rev (adjEntries (cs_G s') pn)) = map (twinNode (cs_G s)) X)"
    if i: "i < length (postOrder cg) - 1" for i
  proof -
    from it[OF i] obtain s s' where
      u: "initClusters_upto (take i (postOrder cg)) 0 (ctor_init g cg) = Inr s"
      and st: "initCluster (postOrder cg ! i) i s = Inr s'"
      and a: "Graph_ok (cs_G s)" "cg_consistent (nodes (cs_G s)) (cs_cg s)"
        "postOrder cg ! i \<in> set (clusters (cs_cg s))" "postOrder cg ! i \<noteq> rootCluster (cs_cg s)"
        "parent (cs_cg s) (postOrder cg ! i) \<noteq> Some (postOrder cg ! i)"
      by blast
    define cn where "cn = nodeIdCount (cs_G s)"
    define pn where "pn = Suc cn"
    define X where "X = crossingEntries (cs_G s) (cs_cg s) (postOrder cg ! i)"
    from initCluster_bijection[OF st a, folded cn_def, folded pn_def X_def]
    have ok': "Graph_ok (cs_G s')"
      and G': "cs_G s' =
              (if X = [] then snd (newNode (snd (newNode (cs_G s))))
               else reverseAdjEdges
                 (fold (\<lambda>adj G'. splitEdge G' (twin adj) pn cn) X (snd (newNode (snd (newNode (cs_G s))))))
                 pn)"
      and mx: "map (twinNode (cs_G s')) (adjEntries (cs_G s') cn) = map (theNode (cs_G s)) X"
      and my: "map (twinNode (cs_G s')) (rev (adjEntries (cs_G s') pn)) = map (twinNode (cs_G s)) X"
      by blast+
    from initCluster_InrD[OF st, folded cn_def, folded pn_def]
    have pi: "pipes (cs_matchings s') = pipes (cs_matchings s) @ [(cn, pn)]"
      and tw: "twins (cs_matchings s') = (twins (cs_matchings s))(cn \<mapsto> pn, pn \<mapsto> cn)"
      and de: "degree (cs_G s') cn = degree (cs_G s') pn"
      by blast+
    have lx: "degree (cs_G s') cn = length X"
      using arg_cong[OF mx, of length] by (simp add: degree_def)
    have ly: "degree (cs_G s') pn = length X"
      using arg_cong[OF my, of length] by (simp add: degree_def)
    have tc: "twins (cs_matchings s') cn = Some pn" by (simp add: tw pn_def)
    have bi: "getIncidentEdgeBijection (cs_G s') (cs_matchings s') cn =
              Inr (zip (adjEntries (cs_G s') cn) (rev (adjEntries (cs_G s') pn)))"
      by (simp add: getIncidentEdgeBijection_def getTwin_def tc de)
    have di: "distinct (adjEntries (cs_G s') cn)" "distinct (adjEntries (cs_G s') pn)"
      by (rule Graph_okD(2)[OF ok'])+
    show ?thesis
      apply (rule exI[of _ s], rule exI[of _ s'])
      unfolding Let_def cn_def[symmetric] pn_def[symmetric] X_def[symmetric]
      using u st pi G' bi lx ly di mx my by blast
  qed
  have fin: "(let cn = nodeIdCount g + 2 * i; pn = Suc cn
         in getIncidentEdgeBijection (cs_G st1) (cs_matchings st1) cn =
              Inr (zip (adjEntries (cs_G st1) cn) (rev (adjEntries (cs_G st1) pn))) \<and>
            degree (cs_G st1) cn = degree (cs_G st1) pn \<and>
            distinct (adjEntries (cs_G st1) cn) \<and> distinct (adjEntries (cs_G st1) pn))"
    if i: "i < length (postOrder cg) - 1" for i
  proof -
    from gr i have de: "degree (cs_G st1) (nodeIdCount g + 2 * i) = degree (cs_G st1) (Suc (nodeIdCount g + 2 * i))"
      and tw: "twins (cs_matchings st1) (nodeIdCount g + 2 * i) = Some (Suc (nodeIdCount g + 2 * i))"
      by simp_all
    show ?thesis
      using de Graph_okD(2)[OF ok1]
      by (simp add: Let_def getIncidentEdgeBijection_def getTwin_def tw)
  qed
  show ?thesis
    apply (rule exI[of _ st1])
    using s up per fin by blast
qed

theorem SyncPlan_new_pipe_bijection_witness:
  "ClusterGraph_ok triangle cg_tri \<and> Graph_ok triangle \<and>
   (\<exists>s'. initCluster 1 0 (ctor_init triangle cg_tri) = Inr s' \<and>
      pipes (cs_matchings s') = [(3, 4)] \<and>
      degree (cs_G s') 3 = 2 \<and> degree (cs_G s') 4 = 2 \<and>
      map (twinNode (cs_G s')) (adjEntries (cs_G s') 3) = [0, 1] \<and>
      map (twinNode (cs_G s')) (rev (adjEntries (cs_G s') 4)) = [2, 2])"
proof -
  from SyncPlan_new_pipe_bijection[OF ClusterGraph_ok_tri Graph_ok_triangle]
  obtain st1 where a: "\<forall>i<length (postOrder cg_tri) - 1. \<exists>s s'.
        initClusters_upto (take i (postOrder cg_tri)) 0 (ctor_init triangle cg_tri) = Inr s \<and>
        initCluster (postOrder cg_tri ! i) i s = Inr s' \<and>
        (let cn = nodeIdCount (cs_G s); pn = Suc cn;
             X = crossingEntries (cs_G s) (cs_cg s) (postOrder cg_tri ! i)
         in pipes (cs_matchings s') = pipes (cs_matchings s) @ [(cn, pn)] \<and>
            cs_G s' =
              (if X = [] then snd (newNode (snd (newNode (cs_G s))))
               else reverseAdjEdges
                 (fold (\<lambda>adj G'. splitEdge G' (twin adj) pn cn) X (snd (newNode (snd (newNode (cs_G s))))))
                 pn) \<and>
            getIncidentEdgeBijection (cs_G s') (cs_matchings s') cn =
              Inr (zip (adjEntries (cs_G s') cn) (rev (adjEntries (cs_G s') pn))) \<and>
            degree (cs_G s') cn = length X \<and> degree (cs_G s') pn = length X \<and>
            distinct (adjEntries (cs_G s') cn) \<and> distinct (adjEntries (cs_G s') pn) \<and>
            map (twinNode (cs_G s')) (adjEntries (cs_G s') cn) = map (theNode (cs_G s)) X \<and>
            map (twinNode (cs_G s')) (rev (adjEntries (cs_G s') pn)) = map (twinNode (cs_G s)) X)"
    by blast
  have p: "postOrder cg_tri ! 0 = 1" "0 < length (postOrder cg_tri) - 1"
    by (simp_all add: cg_tri_def)
  from a p(2) obtain s s' where
    u: "initClusters_upto (take 0 (postOrder cg_tri)) 0 (ctor_init triangle cg_tri) = Inr s"
    and st: "initCluster (postOrder cg_tri ! 0) 0 s = Inr s'"
    and r: "(let cn = nodeIdCount (cs_G s); pn = Suc cn;
             X = crossingEntries (cs_G s) (cs_cg s) (postOrder cg_tri ! 0)
         in pipes (cs_matchings s') = pipes (cs_matchings s) @ [(cn, pn)] \<and>
            cs_G s' =
              (if X = [] then snd (newNode (snd (newNode (cs_G s))))
               else reverseAdjEdges
                 (fold (\<lambda>adj G'. splitEdge G' (twin adj) pn cn) X (snd (newNode (snd (newNode (cs_G s))))))
                 pn) \<and>
            getIncidentEdgeBijection (cs_G s') (cs_matchings s') cn =
              Inr (zip (adjEntries (cs_G s') cn) (rev (adjEntries (cs_G s') pn))) \<and>
            degree (cs_G s') cn = length X \<and> degree (cs_G s') pn = length X \<and>
            distinct (adjEntries (cs_G s') cn) \<and> distinct (adjEntries (cs_G s') pn) \<and>
            map (twinNode (cs_G s')) (adjEntries (cs_G s') cn) = map (theNode (cs_G s)) X \<and>
            map (twinNode (cs_G s')) (rev (adjEntries (cs_G s') pn)) = map (twinNode (cs_G s)) X)"
    by blast
  from u have s: "s = ctor_init triangle cg_tri" by simp
  have n: "nodeIdCount triangle = 3" by (simp add: triangle_def)
  have t: "map (theNode triangle) [Adj 2 False, Adj 1 True] = [0, 1]"
    "map (twinNode triangle) [Adj 2 False, Adj 1 True] = [2, 2]"
    by (simp_all add: triangle_def theNode_def twinNode_def)
  have r0: "pipes (cs_matchings s') = [] @ [(3, Suc 3)] \<and>
      degree (cs_G s') 3 = length [Adj 2 False, Adj 1 True] \<and>
      degree (cs_G s') (Suc 3) = length [Adj 2 False, Adj 1 True] \<and>
      map (twinNode (cs_G s')) (adjEntries (cs_G s') 3) = map (theNode triangle) [Adj 2 False, Adj 1 True] \<and>
      map (twinNode (cs_G s')) (rev (adjEntries (cs_G s') (Suc 3))) =
        map (twinNode triangle) [Adj 2 False, Adj 1 True]"
    using r[unfolded s p(1) Let_def ctor_init_simps n crossingEntries_tri PMatching.select_convs]
    by - (elim conjE, intro conjI; assumption)
  have four: "Suc 3 = 4" by simp
  from r0 have r': "pipes (cs_matchings s') = [(3, 4)]"
    "degree (cs_G s') 3 = 2" "degree (cs_G s') 4 = 2"
    "map (twinNode (cs_G s')) (adjEntries (cs_G s') 3) = [0, 1]"
    "map (twinNode (cs_G s')) (rev (adjEntries (cs_G s') 4)) = [2, 2]"
    unfolding t four by simp_all
  have ex: "\<exists>s'. initCluster 1 0 (ctor_init triangle cg_tri) = Inr s' \<and>
      pipes (cs_matchings s') = [(3, 4)] \<and>
      degree (cs_G s') 3 = 2 \<and> degree (cs_G s') 4 = 2 \<and>
      map (twinNode (cs_G s')) (adjEntries (cs_G s') 3) = [0, 1] \<and>
      map (twinNode (cs_G s')) (rev (adjEntries (cs_G s') 4)) = [2, 2]"
    using st[unfolded s p(1)] r' by - (rule exI[of _ s'], intro conjI; assumption)
  show ?thesis
    using ClusterGraph_ok_tri Graph_ok_triangle ex by - (intro conjI; assumption)
qed

section \<open>The gray nodes, the pipes and the perimeter-crossing edges\<close>

lemma crossing_set_tri:
  "{a. \<exists>n\<in>set (cnodes cg_tri 1). a \<in> set (adjEntries triangle n) \<and>
        clusterOf cg_tri (twinNode triangle a) \<noteq> Some 1} = {Adj 2 False, Adj 1 True}"
  by (auto simp: cg_tri_def triangle_def twinNode_def theNode_def split: if_splits)

text \<open>
  C2. Let the input graph and its clustering be well formed. The constructor visits the
  clusters in post-order up to the root, which comes last and is not visited; a cluster
  is visited before its parent. The iteration for the \<open>i\<close>-th cluster starts in the state
  the first \<open>i\<close> iterations leave, and it returns: it creates the two nodes with the next
  two free indices, \<open>cn\<close> and \<open>pn\<close>, assigns \<open>cn\<close> to the cluster and \<open>pn\<close> to its parent,
  and registers \<open>(cn, pn)\<close> as the \<open>i\<close>-th pipe, having passed the degree assertion of
  \<open>matchNodes\<close>. The perimeter-crossing adjacency entries of the cluster in the state in
  which the iteration starts, those at a node of the cluster whose edge leads to a node
  that is not assigned to the cluster, belong to different edges, and \<open>cn\<close> and \<open>pn\<close> have
  each as many adjacency entries as there are such entries: one for every
  perimeter-crossing edge. The two nodes still have the same degree at the end of the
  loop.
\<close>

theorem SyncPlan_new_gray_nodes_and_pipes:
  assumes "ClusterGraph_ok g cg" and "Graph_ok g"
  shows "\<exists>st1 SP cg' aug'.
     initClusters (postOrder cg) 0 (ctor_init g cg) = Inr st1 \<and>
     initClusters_upto (butlast (postOrder cg)) 0 (ctor_init g cg) = Inr st1 \<and>
     SyncPlan_new g cg aug = Some (Inr (SP, cg', aug')) \<and>
     sp_G SP = cs_G st1 \<and> matchings SP = cs_matchings st1 \<and>
     last (postOrder cg) = rootCluster cg \<and>
     nodes (sp_G SP) = nodes g @ map (\<lambda>j. nodeIdCount g + j) [0..<2 * (length (postOrder cg) - 1)] \<and>
     (\<forall>j. nodeIdCount g + j \<notin> set (nodes g)) \<and>
     pipes (matchings SP) =
       map (\<lambda>i. (nodeIdCount g + 2 * i, Suc (nodeIdCount g + 2 * i))) [0..<length (postOrder cg) - 1] \<and>
     (\<forall>i<length (postOrder cg) - 1.
        postOrder cg ! i \<noteq> rootCluster cg \<and>
        (\<exists>p\<in>set (drop (Suc i) (postOrder cg)). parent cg (postOrder cg ! i) = Some p \<and>
           clusterOf (cs_cg st1) (Suc (nodeIdCount g + 2 * i)) = Some p) \<and>
        clusterOf (cs_cg st1) (nodeIdCount g + 2 * i) = Some (postOrder cg ! i) \<and>
        degree (sp_G SP) (nodeIdCount g + 2 * i) = degree (sp_G SP) (Suc (nodeIdCount g + 2 * i))) \<and>
     (\<forall>i<length (postOrder cg) - 1. \<exists>s s'.
        initClusters_upto (take i (postOrder cg)) 0 (ctor_init g cg) = Inr s \<and>
        initCluster (postOrder cg ! i) i s = Inr s' \<and>
        (let c = postOrder cg ! i; cn = nodeIdCount g + 2 * i; pn = Suc cn;
             S = {a. \<exists>n\<in>set (cnodes (cs_cg s) c). a \<in> set (adjEntries (cs_G s) n) \<and>
                       clusterOf (cs_cg s) (twinNode (cs_G s) a) \<noteq> Some c}
         in nodeIdCount (cs_G s) = cn \<and> cn \<notin> set (nodes (cs_G s)) \<and> pn \<notin> set (nodes (cs_G s)) \<and>
            nodes (cs_G s') = nodes (cs_G s) @ [cn, pn] \<and>
            clusterOf (cs_cg s') cn = Some c \<and> clusterOf (cs_cg s') pn = parent cg c \<and>
            pipes (cs_matchings s') = pipes (cs_matchings s) @ [(cn, pn)] \<and>
            finite S \<and> inj_on theEdge S \<and>
            degree (cs_G s') cn = card S \<and> degree (cs_G s') pn = card S)) \<and>
     (\<forall>c fc_it s s'. initCluster c fc_it s = Inr s' \<longrightarrow>
        pipes (cs_matchings s') = pipes (cs_matchings s) @ [(nodeIdCount (cs_G s), Suc (nodeIdCount (cs_G s)))] \<and>
        degree (cs_G s') (nodeIdCount (cs_G s)) = degree (cs_G s') (Suc (nodeIdCount (cs_G s))))"
proof -
  from assms have pok: "postOrder_ok cg" and fr: "\<forall>n\<in>set (nodes g). n < nodeIdCount g"
    by (simp_all add: ClusterGraph_ok_def)
  from SyncPlan_new_ok[OF assms(1), of aug] obtain st1 cg' where
    s: "initClusters (postOrder cg) 0 (ctor_init g cg) = Inr st1"
    and sp: "SyncPlan_new g cg aug =
       Some (Inr (\<lparr>sp_G = cs_G st1, matchings = cs_matchings st1,
                   undo_stack = [ResetIndices, UndoInitCluster (cs_op st1)]\<rparr>,
                  cg', (case aug of None \<Rightarrow> None | Some _ \<Rightarrow> Some [])))"
    by blast
  note gr = initClusters_ctor_gray[OF pok s]
  from initClusters_ctor_states[OF assms s]
  have up: "initClusters_upto (butlast (postOrder cg)) 0 (ctor_init g cg) = Inr st1"
    and it: "\<And>i. i < length (postOrder cg) - 1 \<Longrightarrow> \<exists>s s'.
        initClusters_upto (take i (postOrder cg)) 0 (ctor_init g cg) = Inr s \<and>
        initCluster (postOrder cg ! i) i s = Inr s' \<and>
        Graph_ok (cs_G s) \<and> cg_consistent (nodes (cs_G s)) (cs_cg s) \<and>
        postOrder cg ! i \<in> set (clusters (cs_cg s)) \<and> postOrder cg ! i \<noteq> rootCluster (cs_cg s) \<and>
        parent (cs_cg s) (postOrder cg ! i) \<noteq> Some (postOrder cg ! i)"
    by blast+
  have l: "last (postOrder cg) = rootCluster cg" using pok by (simp add: postOrder_ok_def)
  have fresh: "\<forall>j. nodeIdCount g + j \<notin> set (nodes g)" using fr by fastforce
  have per: "\<forall>i<length (postOrder cg) - 1.
        postOrder cg ! i \<noteq> rootCluster cg \<and>
        (\<exists>p\<in>set (drop (Suc i) (postOrder cg)). parent cg (postOrder cg ! i) = Some p \<and>
           clusterOf (cs_cg st1) (Suc (nodeIdCount g + 2 * i)) = Some p) \<and>
        clusterOf (cs_cg st1) (nodeIdCount g + 2 * i) = Some (postOrder cg ! i) \<and>
        degree (cs_G st1) (nodeIdCount g + 2 * i) = degree (cs_G st1) (Suc (nodeIdCount g + 2 * i))"
  proof (intro allI impI)
    fix i assume i: "i < length (postOrder cg) - 1"
    from postOrder_parent_later[OF pok i] obtain p where
      p: "postOrder cg ! i \<noteq> rootCluster cg" "p \<in> set (drop (Suc i) (postOrder cg))"
         "parent cg (postOrder cg ! i) = Some p" by blast
    from gr i have g: "clusterOf (cs_cg st1) (nodeIdCount g + 2 * i) = Some (postOrder cg ! i)"
        "clusterOf (cs_cg st1) (Suc (nodeIdCount g + 2 * i)) = parent cg (postOrder cg ! i)"
        "degree (cs_G st1) (nodeIdCount g + 2 * i) = degree (cs_G st1) (Suc (nodeIdCount g + 2 * i))"
      by simp_all
    show "postOrder cg ! i \<noteq> rootCluster cg \<and>
        (\<exists>p\<in>set (drop (Suc i) (postOrder cg)). parent cg (postOrder cg ! i) = Some p \<and>
           clusterOf (cs_cg st1) (Suc (nodeIdCount g + 2 * i)) = Some p) \<and>
        clusterOf (cs_cg st1) (nodeIdCount g + 2 * i) = Some (postOrder cg ! i) \<and>
        degree (cs_G st1) (nodeIdCount g + 2 * i) = degree (cs_G st1) (Suc (nodeIdCount g + 2 * i))"
      using p g by auto
  qed
  have iter: "\<exists>s s'.
        initClusters_upto (take i (postOrder cg)) 0 (ctor_init g cg) = Inr s \<and>
        initCluster (postOrder cg ! i) i s = Inr s' \<and>
        (let c = postOrder cg ! i; cn = nodeIdCount g + 2 * i; pn = Suc cn;
             S = {a. \<exists>n\<in>set (cnodes (cs_cg s) c). a \<in> set (adjEntries (cs_G s) n) \<and>
                       clusterOf (cs_cg s) (twinNode (cs_G s) a) \<noteq> Some c}
         in nodeIdCount (cs_G s) = cn \<and> cn \<notin> set (nodes (cs_G s)) \<and> pn \<notin> set (nodes (cs_G s)) \<and>
            nodes (cs_G s') = nodes (cs_G s) @ [cn, pn] \<and>
            clusterOf (cs_cg s') cn = Some c \<and> clusterOf (cs_cg s') pn = parent cg c \<and>
            pipes (cs_matchings s') = pipes (cs_matchings s) @ [(cn, pn)] \<and>
            finite S \<and> inj_on theEdge S \<and>
            degree (cs_G s') cn = card S \<and> degree (cs_G s') pn = card S)"
    if i: "i < length (postOrder cg) - 1" for i
  proof -
    from it[OF i] obtain s s' where
      u: "initClusters_upto (take i (postOrder cg)) 0 (ctor_init g cg) = Inr s"
      and st: "initCluster (postOrder cg ! i) i s = Inr s'"
      and a: "Graph_ok (cs_G s)" "cg_consistent (nodes (cs_G s)) (cs_cg s)"
        "postOrder cg ! i \<in> set (clusters (cs_cg s))" "postOrder cg ! i \<noteq> rootCluster (cs_cg s)"
        "parent (cs_cg s) (postOrder cg ! i) \<noteq> Some (postOrder cg ! i)"
      by blast
    define c where "c = postOrder cg ! i"
    define cn where "cn = nodeIdCount g + 2 * i"
    define pn where "pn = Suc cn"
    define X where "X = crossingEntries (cs_G s) (cs_cg s) c"
    define S where "S = {a. \<exists>n\<in>set (cnodes (cs_cg s) c). a \<in> set (adjEntries (cs_G s) n) \<and>
                       clusterOf (cs_cg s) (twinNode (cs_G s) a) \<noteq> Some c}"
    note st = st[folded c_def] and a = a[folded c_def]
    from initClusters_upto_frame[OF u] i
    have nc: "nodeIdCount (cs_G s) = cn" and pa: "parent (cs_cg s) = parent cg"
      by (simp_all add: cn_def)
    have fr': "cn \<notin> set (nodes (cs_G s))" "pn \<notin> set (nodes (cs_G s))"
      using Graph_okD(1)[OF a(1), of cn] Graph_okD(1)[OF a(1), of pn] nc by (auto simp: pn_def)
    from initCluster_InrD[OF st, unfolded nc, folded pn_def]
    have nd: "nodes (cs_G s') = nodes (cs_G s) @ [cn, pn]"
      and pi: "pipes (cs_matchings s') = pipes (cs_matchings s) @ [(cn, pn)]"
      by blast+
    have co: "clusterOf (cs_cg s') cn = Some c" "clusterOf (cs_cg s') pn = parent cg c"
      using clusterOf_initCluster[OF st, unfolded nc, folded pn_def] pa by (simp_all add: pn_def)
    have sX: "set X = S"
      unfolding X_def S_def by (auto simp: crossingEntries_def is_crossing_def)
    have inner: "\<And>n. n \<in> set (cnodes (cs_cg s) c) \<Longrightarrow> clusterOf (cs_cg s) n = Some c"
      using cg_consistentD(2)[OF a(2,3)] by simp
    have dX: "distinct X"
      unfolding X_def crossingEntries_def
      by (rule crossing_distinct[OF a(1) cg_consistentD(1)[OF a(2,3)]])
    have dE: "distinct (map theEdge X)"
      unfolding X_def crossingEntries_def
      by (rule crossing_distinct_edges[OF a(1) cg_consistentD(1)[OF a(2,3)] inner])
    have inj: "inj_on theEdge S" using dE sX by (simp add: distinct_map)
    have fin: "finite S" using sX by (metis List.finite_set)
    have cS: "card S = length X" using distinct_card[OF dX] sX by simp
    from initCluster_bijection[OF st a, unfolded nc, folded pn_def X_def]
    have mx: "map (twinNode (cs_G s')) (adjEntries (cs_G s') cn) = map (theNode (cs_G s)) X"
      and my: "map (twinNode (cs_G s')) (rev (adjEntries (cs_G s') pn)) = map (twinNode (cs_G s)) X"
      by blast+
    have lx: "degree (cs_G s') cn = card S"
      using arg_cong[OF mx, of length] cS by (simp add: degree_def)
    have ly: "degree (cs_G s') pn = card S"
      using arg_cong[OF my, of length] cS by (simp add: degree_def)
    show ?thesis
      apply (rule exI[of _ s], rule exI[of _ s'])
      unfolding Let_def c_def[symmetric] cn_def[symmetric] pn_def[symmetric] S_def[symmetric]
      using u st nc fr' nd co pi fin inj lx ly by (simp add: c_def)
  qed
  have reg: "\<forall>c fc_it s s'. initCluster c fc_it s = Inr s' \<longrightarrow>
        pipes (cs_matchings s') = pipes (cs_matchings s) @ [(nodeIdCount (cs_G s), Suc (nodeIdCount (cs_G s)))] \<and>
        degree (cs_G s') (nodeIdCount (cs_G s)) = degree (cs_G s') (Suc (nodeIdCount (cs_G s)))"
    using initCluster_InrD by blast
  show ?thesis
    apply (rule exI[of _ st1])
    apply (rule exI[of _ "\<lparr>sp_G = cs_G st1, matchings = cs_matchings st1,
                   undo_stack = [ResetIndices, UndoInitCluster (cs_op st1)]\<rparr>"])
    apply (rule exI[of _ cg'])
    apply (rule exI[of _ "case aug of None \<Rightarrow> None | Some _ \<Rightarrow> Some []"])
    using s up sp l fresh per iter reg gr by simp
qed

theorem SyncPlan_new_gray_nodes_and_pipes_witness:
  "ClusterGraph_ok triangle cg_tri \<and> Graph_ok triangle \<and>
   (\<exists>SP cg' aug'. SyncPlan_new triangle cg_tri None = Some (Inr (SP, cg', aug')) \<and>
      nodes (sp_G SP) = [0, 1, 2, 3, 4] \<and> pipes (matchings SP) = [(3, 4)] \<and>
      degree (sp_G SP) 3 = 2 \<and> degree (sp_G SP) 4 = 2)"
proof -
  from SyncPlan_new_gray_nodes_and_pipes[OF ClusterGraph_ok_tri Graph_ok_triangle, of None]
  obtain st1 SP cg' aug' where
    a: "SyncPlan_new triangle cg_tri None = Some (Inr (SP, cg', aug'))"
    and up: "initClusters_upto (butlast (postOrder cg_tri)) 0 (ctor_init triangle cg_tri) = Inr st1"
    and g: "sp_G SP = cs_G st1"
    and n: "nodes (sp_G SP) = nodes triangle @
         map (\<lambda>j. nodeIdCount triangle + j) [0..<2 * (length (postOrder cg_tri) - 1)]"
    and p: "pipes (matchings SP) =
       map (\<lambda>i. (nodeIdCount triangle + 2 * i, Suc (nodeIdCount triangle + 2 * i)))
         [0..<length (postOrder cg_tri) - 1]"
    and it: "\<forall>i<length (postOrder cg_tri) - 1. \<exists>s s'.
        initClusters_upto (take i (postOrder cg_tri)) 0 (ctor_init triangle cg_tri) = Inr s \<and>
        initCluster (postOrder cg_tri ! i) i s = Inr s' \<and>
        (let c = postOrder cg_tri ! i; cn = nodeIdCount triangle + 2 * i; pn = Suc cn;
             S = {a. \<exists>n\<in>set (cnodes (cs_cg s) c). a \<in> set (adjEntries (cs_G s) n) \<and>
                       clusterOf (cs_cg s) (twinNode (cs_G s) a) \<noteq> Some c}
         in nodeIdCount (cs_G s) = cn \<and> cn \<notin> set (nodes (cs_G s)) \<and> pn \<notin> set (nodes (cs_G s)) \<and>
            nodes (cs_G s') = nodes (cs_G s) @ [cn, pn] \<and>
            clusterOf (cs_cg s') cn = Some c \<and> clusterOf (cs_cg s') pn = parent cg_tri c \<and>
            pipes (cs_matchings s') = pipes (cs_matchings s) @ [(cn, pn)] \<and>
            finite S \<and> inj_on theEdge S \<and>
            degree (cs_G s') cn = card S \<and> degree (cs_G s') pn = card S)"
    by - (elim exE conjE, rule that; assumption)
  have po: "postOrder cg_tri ! 0 = 1" "0 < length (postOrder cg_tri) - 1"
    "butlast (postOrder cg_tri) = [1]"
    by (simp_all add: cg_tri_def)
  from it po(2) obtain s s' where
    u: "initClusters_upto (take 0 (postOrder cg_tri)) 0 (ctor_init triangle cg_tri) = Inr s"
    and st: "initCluster (postOrder cg_tri ! 0) 0 s = Inr s'"
    and d: "(let c = postOrder cg_tri ! 0; cn = nodeIdCount triangle + 2 * 0; pn = Suc cn;
             S = {a. \<exists>n\<in>set (cnodes (cs_cg s) c). a \<in> set (adjEntries (cs_G s) n) \<and>
                       clusterOf (cs_cg s) (twinNode (cs_G s) a) \<noteq> Some c}
         in nodeIdCount (cs_G s) = cn \<and> cn \<notin> set (nodes (cs_G s)) \<and> pn \<notin> set (nodes (cs_G s)) \<and>
            nodes (cs_G s') = nodes (cs_G s) @ [cn, pn] \<and>
            clusterOf (cs_cg s') cn = Some c \<and> clusterOf (cs_cg s') pn = parent cg_tri c \<and>
            pipes (cs_matchings s') = pipes (cs_matchings s) @ [(cn, pn)] \<and>
            finite S \<and> inj_on theEdge S \<and>
            degree (cs_G s') cn = card S \<and> degree (cs_G s') pn = card S)"
    by blast
  from u have s: "s = ctor_init triangle cg_tri" by simp
  have n3: "nodeIdCount triangle + 2 * 0 = 3" "Suc 3 = 4" by (simp_all add: triangle_def)
  have c2: "card {Adj 2 False, Adj 1 True} = 2" by simp
  note dd = d[unfolded s po(1) Let_def ctor_init_simps crossing_set_tri n3 c2]
  have d': "degree (cs_G s') 3 = 2" "degree (cs_G s') 4 = 2"
    using dd by - (elim conjE, assumption)+
  from up st have "st1 = s'" unfolding po(3) s po(1) by simp
  with d' g have dg: "degree (sp_G SP) 3 = 2" "degree (sp_G SP) 4 = 2" by simp_all
  have "nodes (sp_G SP) = [0, 1, 2, 3, 4]" using n by (simp add: triangle_def cg_tri_def upt_0_2)
  moreover have "pipes (matchings SP) = [(3, 4)]" using p by (simp add: triangle_def cg_tri_def)
  ultimately have "\<exists>SP cg' aug'. SyncPlan_new triangle cg_tri None = Some (Inr (SP, cg', aug')) \<and>
      nodes (sp_G SP) = [0, 1, 2, 3, 4] \<and> pipes (matchings SP) = [(3, 4)] \<and>
      degree (sp_G SP) 3 = 2 \<and> degree (sp_G SP) 4 = 2"
    using a dg by blast
  then show ?thesis
    using ClusterGraph_ok_tri Graph_ok_triangle by - (intro conjI; assumption)
qed

end
